theory Spec2Isabelle
  imports Main "HOL-Library.AList"
begin

section \<open>The highlighter of html-highlighter: data model\<close>

text \<open>
  A shallow embedding of \<^verbatim>\<open>src/htmlhighlighter.js\<close> (class \<^verbatim>\<open>HtmlHighlighter\<close>).

  JavaScript numbers are modelled as \<open>int\<close>; counters that start at 0 and are only ever
  incremented (\<^verbatim>\<open>count\<close>, \<^verbatim>\<open>q.length\<close>, \<^verbatim>\<open>index\<close>) are \<open>nat\<close>.
  Query set descriptors are objects shared between the registry \<^verbatim>\<open>this.queries\<close> and the
  entries of \<^verbatim>\<open>this.highlights\<close> (\<^verbatim>\<open>markers[i].query === q\<close> compares references), so they
  live in an explicit store: \<open>heap\<close> maps an address to the descriptor, \<open>fresh\<close> is the
  next unused address, and both the registry and the markers hold addresses.
  The registry is an association list in insertion order, as \<^verbatim>\<open>Object.keys\<close> enumerates it.

  Record fields carry a prefix where the source's name is taken in HOL:
  \<^verbatim>\<open>q.name, q.enabled, q.id, q.length, q.reserve\<close> are \<open>qname, qenabled, qid, qlength, qreserve\<close>;
  \<^verbatim>\<open>marker.query, marker.index, marker.offset\<close> are \<open>mquery, mindex, moffset\<close>;
  \<^verbatim>\<open>stats.queries, stats.total, stats.highlight\<close> are \<open>stats_queries, stats_total,
  stats_highlight\<close>; the console is the list \<open>console\<close> of the messages logged so far.
  A method whose name ends in an underscore has a prime in its place (\<^verbatim>\<open>remove_\<close> is
  \<open>remove'\<close>); \<^verbatim>\<open>apply\<close> is \<open>apply_transaction\<close> and \<^verbatim>\<open>append\<close> is \<open>append_queries\<close>.
  Names of query sets are taken not to collide with the properties every JavaScript object
  inherits.
\<close>

datatype error =
    QuerySetNonExistent       \<comment> \<open>\<^verbatim>\<open>'Query set non-existent'\<close> (\<^verbatim>\<open>get_\<close>)\<close>
  | InvalidQueries            \<comment> \<open>\<^verbatim>\<open>'Invalid or no queries array specified'\<close>\<close>
  | QuerySetNotCreated        \<comment> \<open>\<^verbatim>\<open>'Invalid or query set not yet created'\<close>\<close>
  | HighlightOutOfPosition    \<comment> \<open>\<^verbatim>\<open>'Invalid state: highlight out of position'\<close>\<close>
  | LengthMismatch            \<comment> \<open>\<^verbatim>\<open>'Invalid state: length mismatch'\<close>\<close>
  | QuerySetObjectNotEmpty    \<comment> \<open>\<^verbatim>\<open>'Query set object not empty'\<close>\<close>
  | TypeError                 \<comment> \<open>a property read on \<^verbatim>\<open>null\<close>\<close>

datatype logmsg =
    NothingToApply            \<comment> \<open>\<^verbatim>\<open>console.info('Nothing to apply: transaction queue empty')\<close>\<close>
  | FailedToApply error       \<comment> \<open>\<^verbatim>\<open>console.error('Failed to apply action:', x)\<close>\<close>
  | FinderException           \<comment> \<open>\<^verbatim>\<open>console.error('exception: ', x)\<close> on \<^verbatim>\<open>constructFinder\<close>\<close>
  | ReserveExceeded           \<comment> \<open>\<^verbatim>\<open>console.error('highlight reserve exceeded')\<close>\<close>
  | WrapException             \<comment> \<open>\<^verbatim>\<open>console.error('exception: ', x)\<close> on \<^verbatim>\<open>highlighter.do\<close>\<close>
  | InsufficientReserve       \<comment> \<open>\<^verbatim>\<open>console.error('Invalid or insufficient reserve specified')\<close>\<close>
  | SelectionNotText          \<comment> \<open>\<^verbatim>\<open>console.info('Selection anchor or focus node(s) not text: ignoring')\<close>\<close>
  | SelectionOffsetUnknown    \<comment> \<open>\<^verbatim>\<open>console.error('Unable to retrieve offset of selection ...')\<close>\<close>

record qset =
  qname :: string
  qenabled :: bool
  id_highlight :: int
  qid :: int
  qlength :: nat
  qreserve :: "int option"   \<comment> \<open>\<open>None\<close>: the property is absent (\<^verbatim>\<open>undefined\<close>)\<close>

record marker =
  mquery :: nat              \<comment> \<open>address of the query set descriptor\<close>
  mindex :: nat
  moffset :: int

text \<open>
  The finders (\<^verbatim>\<open>TextFinder\<close>, \<^verbatim>\<open>XpathFinder\<close>) and \<^verbatim>\<open>RangeHighlighter\<close> are other modules
  of the library. A query is taken as what they yield for it: either
  \<^verbatim>\<open>constructFinder\<close> throws, or the finder returns a finite sequence of hits and then
  \<^verbatim>\<open>false\<close>. A hit carries the two numbers \<^verbatim>\<open>add_queries_\<close> reads from it and whether
  \<^verbatim>\<open>highlighter.do(hit)\<close> returns (\<open>wraps\<close>) or throws.
\<close>

record hit =
  start_marker_offset :: int   \<comment> \<open>\<^verbatim>\<open>hit.start.marker.offset\<close>\<close>
  start_offset :: int          \<comment> \<open>\<^verbatim>\<open>hit.start.offset\<close>\<close>
  wraps :: bool

datatype query = FinderThrows | Finder "hit list"

record stats =
  stats_queries :: int
  stats_total :: int
  stats_highlight :: int

record options =
  maxHighlight :: int

text \<open>
  The closures pushed on \<^verbatim>\<open>this.transaction\<close> are data: each names the deferred method it
  calls and the arguments it captured. The \<^verbatim>\<open>queries\<close> argument is \<open>None\<close> when it is not an
  array, \<^verbatim>\<open>reserve\<close> is \<open>None\<close> when it is not a number and a whole number otherwise, and
  \<^verbatim>\<open>enabled\<close> is the boolean \<^verbatim>\<open>enabled !== false\<close> that the closure passes on.
\<close>

datatype action =
    Add string "query list option" bool "int option"
  | Append string "query list option" bool
  | Remove string
  | Enable string
  | Disable string
  | Clear bool

record state =
  options :: options
  debug :: bool                        \<comment> \<open>the static \<^verbatim>\<open>HtmlHighlighter.debug\<close>\<close>
  transaction :: "action list"
  queries :: "(string \<times> nat) list"
  heap :: "nat \<Rightarrow> qset"
  fresh :: nat
  highlights :: "marker list"
  lastId :: int
  stats :: stats
  console :: "logmsg list"

type_synonym outcome = "(error \<times> state) + state"
  \<comment> \<open>\<open>Inl (e, s)\<close>: \<open>e\<close> was thrown, with the state as mutated up to the throw\<close>

definition console_log :: "logmsg \<Rightarrow> state \<Rightarrow> state" where
  "console_log m s = s\<lparr>console := console s @ [m]\<rparr>"

definition no_qset :: qset where
  "no_qset = \<lparr>qname = [], qenabled = False, id_highlight = 0, qid = 0, qlength = 0, qreserve = None\<rparr>"

text \<open>The constructor (lines 38-73), without the cursor, the widget and the text content.\<close>

definition init :: "options \<Rightarrow> bool \<Rightarrow> state" where
  "init opts dbg =
     \<lparr>options = opts, debug = dbg, transaction = [], queries = [], heap = (\<lambda>_. no_qset),
      fresh = 0, highlights = [], lastId = 0,
      stats = \<lparr>stats_queries = 0, stats_total = 0, stats_highlight = 0\<rparr>, console = []\<rparr>"

section \<open>Public operations: enqueueing\<close>

definition enqueue :: "action \<Rightarrow> state \<Rightarrow> state" where
  "enqueue act s = s\<lparr>transaction := transaction s @ [act]\<rparr>"

definition add :: "string \<Rightarrow> query list option \<Rightarrow> bool \<Rightarrow> int option \<Rightarrow> state \<Rightarrow> state" where
  "add nm qs enabled reserve = enqueue (Add nm qs enabled reserve)"

definition append_queries :: "string \<Rightarrow> query list option \<Rightarrow> bool \<Rightarrow> state \<Rightarrow> state" where
  "append_queries nm qs enabled = enqueue (Append nm qs enabled)"

definition remove :: "string \<Rightarrow> state \<Rightarrow> state" where
  "remove nm = enqueue (Remove nm)"

definition enable :: "string \<Rightarrow> state \<Rightarrow> state" where
  "enable nm = enqueue (Enable nm)"

definition disable :: "string \<Rightarrow> state \<Rightarrow> state" where
  "disable nm = enqueue (Disable nm)"

definition clear :: "bool \<Rightarrow> state \<Rightarrow> state" where
  "clear reset = enqueue (Clear reset)"

section \<open>The registry\<close>

text \<open>\<^verbatim>\<open>get_\<close> (lines 527-533): the descriptor registered under a name, or the exception.\<close>

definition get' :: "string \<Rightarrow> state \<Rightarrow> error + nat" where
  "get' nm s = (case map_of (queries s) nm of None \<Rightarrow> Inl QuerySetNonExistent | Some a \<Rightarrow> Inr a)"

text \<open>\<^verbatim>\<open>empty\<close> (lines 372-376).\<close>

definition empty :: "state \<Rightarrow> bool" where
  "empty s = (\<not> list_ex (\<lambda>k. case map_of (queries s) k of
                                 None \<Rightarrow> False
                               | Some a \<Rightarrow> qlength (heap s a) > 0) (map fst (queries s)))"

text \<open>\<^verbatim>\<open>lastIdOf\<close> (lines 384-388).\<close>

definition lastIdOf :: "string \<Rightarrow> state \<Rightarrow> error + int" where
  "lastIdOf nm s =
     (case get' nm s of
        Inl e \<Rightarrow> Inl e
      | Inr a \<Rightarrow> (let q = heap s a; l = qlength q in
                  Inr (if l > 0 then qid q + int l - 1 else - 1)))"

section \<open>Inserting highlight markers\<close>

text \<open>
  The binary search of \<^verbatim>\<open>add_queries_\<close> (lines 444-456). It is entered with \<open>mn = 0\<close> and
  \<open>mx = markers.length - 1\<close>; from there every index it reads lies inside the list
  (lemma \<open>bsearch_bounds\<close> below).
\<close>

function bsearch :: "marker list \<Rightarrow> int \<Rightarrow> int \<Rightarrow> int \<Rightarrow> int" where
  "bsearch markers off mn mx =
     (if mn < mx then
        (let mid = (mn + mx) div 2 in
         if moffset (markers ! nat mid) < off then bsearch markers off (mid + 1) mx
         else bsearch markers off mn mid)
      else mn)"
  by pat_completeness auto
termination
  by (relation "measure (\<lambda>(markers, off, mn, mx). nat (mx - mn))") auto

declare bsearch.simps [simp del]

text \<open>The index handed to \<^verbatim>\<open>markers.splice\<close> (line 458).\<close>

definition splice_index :: "marker list \<Rightarrow> int \<Rightarrow> nat" where
  "splice_index markers off =
     (let mn = bsearch markers off 0 (int (length markers) - 1) in
      if length markers > 0 \<and> moffset (markers ! nat mn) < off then nat (mn + 1) else nat mn)"

text \<open>\<^verbatim>\<open>markers.splice(i, 0, m)\<close>.\<close>

definition splice :: "'a list \<Rightarrow> nat \<Rightarrow> 'a \<Rightarrow> 'a list" where
  "splice xs i x = take i xs @ x # drop i xs"

definition insert_marker :: "marker list \<Rightarrow> marker \<Rightarrow> marker list" where
  "insert_marker markers m = splice markers (splice_index markers (moffset m)) m"

text \<open>
  The \<^verbatim>\<open>while\<close> loop over one finder's hits (lines 437-470). \<open>reserve\<close> is the local
  constant of line 406, \<open>count\<close> the local counter.
\<close>

fun hits_loop :: "nat \<Rightarrow> int option \<Rightarrow> hit list \<Rightarrow> nat \<Rightarrow> state \<Rightarrow> nat \<times> state" where
  "hits_loop a reserve [] count s = (count, s)"
| "hits_loop a reserve (h # hs) count s =
     (if (case reserve of None \<Rightarrow> False | Some r \<Rightarrow> int count \<ge> r)
      then (count, console_log ReserveExceeded s)
      else
        (let off = start_marker_offset h + start_offset h;
             s' = s\<lparr>highlights :=
                      insert_marker (highlights s) \<lparr>mquery = a, mindex = count, moffset = off\<rparr>\<rparr>
         in if wraps h then hits_loop a reserve hs (count + 1) s'
            else hits_loop a reserve hs count (console_log WrapException s')))"

text \<open>
  \<^verbatim>\<open>queries.forEach\<close> (lines 420-471). The test \<^verbatim>\<open>hit === false\<close> of line 430 reads a
  variable that is still \<^verbatim>\<open>undefined\<close> and never holds.
\<close>

fun queries_forEach :: "nat \<Rightarrow> int option \<Rightarrow> query list \<Rightarrow> nat \<Rightarrow> state \<Rightarrow> nat \<times> state" where
  "queries_forEach a reserve [] count s = (count, s)"
| "queries_forEach a reserve (FinderThrows # qs) count s =
     queries_forEach a reserve qs count (console_log FinderException s)"
| "queries_forEach a reserve (Finder hs # qs) count s =
     (case hits_loop a reserve hs count s of
        (count', s') \<Rightarrow> queries_forEach a reserve qs count' s')"

text \<open>
  \<^verbatim>\<open>add_queries_\<close> (lines 403-478); \<open>a\<close> is the address of \<^verbatim>\<open>q\<close>. The CSS class built from
  \<^verbatim>\<open>name\<close> only reaches the wrapping elements.
\<close>

definition add_queries' :: "string \<Rightarrow> nat \<Rightarrow> query list \<Rightarrow> bool \<Rightarrow> state \<Rightarrow> nat \<times> state" where
  "add_queries' nm a qs enabled s =
     (let q = heap s a;
          reserve = (case qreserve q of
                       None \<Rightarrow> None
                     | Some r \<Rightarrow> if r > 0 then Some (r - int (qlength q)) else None)
      in case queries_forEach a reserve qs 0 s of
           (count, s1) \<Rightarrow>
             (let s2 = s1\<lparr>heap := (heap s1)(a := (heap s1 a)\<lparr>qlength := qlength (heap s1 a) + count\<rparr>)\<rparr>;
                  s3 = (if enabled
                        then s2\<lparr>stats := (stats s2)\<lparr>stats_total := stats_total (stats s2) + int count\<rparr>\<rparr>
                        else s2)
              in (count, s3)))"

section \<open>Removing a query set\<close>

text \<open>The loop of lines 500-506: every marker of \<^verbatim>\<open>q\<close> is spliced out.\<close>

primrec drop_markers :: "nat \<Rightarrow> marker list \<Rightarrow> marker list" where
  "drop_markers a [] = []"
| "drop_markers a (m # ms) = (if mquery m = a then drop_markers a ms else m # drop_markers a ms)"

text \<open>
  \<^verbatim>\<open>remove_\<close> (lines 488-517). Unwrapping the elements, normalising the container and
  refreshing the text content act on the document only.
\<close>

definition remove' :: "string \<Rightarrow> state \<Rightarrow> outcome" where
  "remove' nm s =
     (case get' nm s of
        Inl e \<Rightarrow> Inl (e, s)
      | Inr a \<Rightarrow>
          (let q = heap s a;
               s1 = s\<lparr>stats := (stats s)\<lparr>stats_queries := stats_queries (stats s) - 1,
                                          stats_total := stats_total (stats s) - int (qlength q)\<rparr>\<rparr>;
               s2 = s1\<lparr>highlights := drop_markers a (highlights s1)\<rparr>
           in Inr (s2\<lparr>queries := AList.delete nm (queries s2)\<rparr>)))"

section \<open>The debug assertion\<close>

text \<open>\<^verbatim>\<open>assert_\<close> (lines 535-557): \<open>None\<close> when it returns, the exception otherwise.\<close>

fun assert_markers :: "(nat \<Rightarrow> qset) \<Rightarrow> marker list \<Rightarrow> int \<Rightarrow> nat \<Rightarrow> error + nat" where
  "assert_markers hp [] c k = Inr k"
| "assert_markers hp (i # is) c k =
     (if moffset i < c \<or> mindex i \<ge> qlength (hp (mquery i)) then Inl HighlightOutOfPosition
      else assert_markers hp is (moffset i) (k + 1))"

definition assert' :: "state \<Rightarrow> error option" where
  "assert' s =
     (let l = foldl (\<lambda>l (ki, a). l + qlength (heap s a)) 0 (queries s) in
      case assert_markers (heap s) (highlights s) 0 0 of
        Inl e \<Rightarrow> Some e
      | Inr k \<Rightarrow> if k \<noteq> l then Some LengthMismatch else None)"

definition debug_assert :: "state \<Rightarrow> outcome" where
  "debug_assert s =
     (if debug s then (case assert' s of Some e \<Rightarrow> Inl (e, s) | None \<Rightarrow> Inr s) else Inr s)"

section \<open>The deferred actions\<close>

text \<open>
  \<^verbatim>\<open>this.cursor.clear()\<close> and \<^verbatim>\<open>this.ui.update()\<close> close most deferred methods. They
  touch the cursor and the widget, which the state above does not hold.
\<close>

definition deferred_remove' :: "string \<Rightarrow> state \<Rightarrow> outcome" where
  "deferred_remove' nm s = remove' nm s"

text \<open>Lines 586-596 of \<^verbatim>\<open>deferred_add_\<close>.\<close>

definition settle_reserve :: "nat \<Rightarrow> int option \<Rightarrow> nat \<Rightarrow> state \<Rightarrow> state" where
  "settle_reserve a reserve count s =
     (case reserve of
        Some r \<Rightarrow>
          if r > int count
          then (let s1 = s\<lparr>lastId := r\<rparr> in
                s1\<lparr>heap := (heap s1)(a := (heap s1 a)\<lparr>qreserve := Some r\<rparr>)\<rparr>)
          else (let s1 = console_log InsufficientReserve s in
                s1\<lparr>heap := (heap s1)(a := (heap s1 a)\<lparr>qreserve := Some (int count)\<rparr>)\<rparr>)
      | None \<Rightarrow> s\<lparr>lastId := lastId s + int count\<rparr>)"

text \<open>Lines 598-605 of \<^verbatim>\<open>deferred_add_\<close>.\<close>

definition update_statistics :: "state \<Rightarrow> state" where
  "update_statistics s =
     (let s1 = s\<lparr>stats := (stats s)\<lparr>stats_queries := stats_queries (stats s) + 1\<rparr>\<rparr>;
          s2 = s1\<lparr>stats := (stats s1)\<lparr>stats_highlight := stats_highlight (stats s1) + 1\<rparr>\<rparr>
      in if stats_highlight (stats s2) \<ge> maxHighlight (options s2)
         then s2\<lparr>stats := (stats s2)\<lparr>stats_highlight := 0\<rparr>\<rparr>
         else s2)"

text \<open>Lines 577-583 of \<^verbatim>\<open>deferred_add_\<close>: the new descriptor and its registration.\<close>

definition new_query_set :: "string \<Rightarrow> bool \<Rightarrow> state \<Rightarrow> nat \<times> state" where
  "new_query_set nm enabled s =
     (let a = fresh s;
          q = \<lparr>qname = nm, qenabled = enabled, id_highlight = stats_highlight (stats s),
               qid = lastId s, qlength = 0, qreserve = None\<rparr>
      in (a, s\<lparr>fresh := a + 1, heap := (heap s)(a := q),
               queries := AList.update nm a (queries s)\<rparr>))"

text \<open>
  \<^verbatim>\<open>deferred_add_\<close> (lines 559-612). \<^verbatim>\<open>enabled === true\<close> is the identity on the boolean
  the closure passes.
\<close>

definition deferred_add' :: "string \<Rightarrow> query list option \<Rightarrow> bool \<Rightarrow> int option \<Rightarrow> state \<Rightarrow> outcome" where
  "deferred_add' nm queries_arg enabled reserve_arg s =
     (case queries_arg of
        None \<Rightarrow> Inl (InvalidQueries, s)
      | Some qs \<Rightarrow>
          (let reserve = (case reserve_arg of
                            None \<Rightarrow> None
                          | Some r \<Rightarrow> if r < 1 then None else Some r)
           in case (if map_of (queries s) nm \<noteq> None then deferred_remove' nm s else Inr s) of
                Inl x \<Rightarrow> Inl x
              | Inr s1 \<Rightarrow>
                  (case new_query_set nm enabled s1 of
                     (a, s2) \<Rightarrow>
                       (case add_queries' nm a qs enabled s2 of
                          (count, s3) \<Rightarrow>
                            debug_assert (update_statistics (settle_reserve a reserve count s3))))))"

text \<open>\<^verbatim>\<open>deferred_append_\<close> (lines 614-627).\<close>

definition deferred_append' :: "string \<Rightarrow> query list option \<Rightarrow> bool \<Rightarrow> state \<Rightarrow> outcome" where
  "deferred_append' nm queries_arg enabled s =
     (case queries_arg of
        None \<Rightarrow> Inl (InvalidQueries, s)
      | Some qs \<Rightarrow>
          (case map_of (queries s) nm of
             None \<Rightarrow> Inl (QuerySetNotCreated, s)
           | Some a \<Rightarrow> debug_assert (snd (add_queries' nm a qs enabled s))))"

text \<open>
  \<^verbatim>\<open>deferred_enable_\<close> and \<^verbatim>\<open>deferred_disable_\<close> (lines 635-667). \<^verbatim>\<open>q.id\<close> is a number,
  never \<^verbatim>\<open>null\<close>; the loops toggle a CSS class on the wrapping elements.
\<close>

definition deferred_enable' :: "string \<Rightarrow> state \<Rightarrow> outcome" where
  "deferred_enable' nm s =
     (case get' nm s of
        Inl e \<Rightarrow> Inl (e, s)
      | Inr a \<Rightarrow>
          (let q = heap s a in
           if qenabled q then Inr s
           else (let s1 = s\<lparr>heap := (heap s)(a := q\<lparr>qenabled := True\<rparr>)\<rparr>
                 in Inr (s1\<lparr>stats := (stats s1)\<lparr>stats_total :=
                                 stats_total (stats s1) + int (qlength q)\<rparr>\<rparr>))))"

definition deferred_disable' :: "string \<Rightarrow> state \<Rightarrow> outcome" where
  "deferred_disable' nm s =
     (case get' nm s of
        Inl e \<Rightarrow> Inl (e, s)
      | Inr a \<Rightarrow>
          (let q = heap s a in
           if \<not> qenabled q then Inr s
           else (let s1 = s\<lparr>heap := (heap s)(a := q\<lparr>qenabled := False\<rparr>)\<rparr>
                 in Inr (s1\<lparr>stats := (stats s1)\<lparr>stats_total :=
                                 stats_total (stats s1) - int (qlength q)\<rparr>\<rparr>))))"

text \<open>\<^verbatim>\<open>deferred_clear_\<close> (lines 669-683).\<close>

fun remove_each :: "string list \<Rightarrow> state \<Rightarrow> outcome" where
  "remove_each [] s = Inr s"
| "remove_each (k # ks) s = (case remove' k s of Inl x \<Rightarrow> Inl x | Inr s' \<Rightarrow> remove_each ks s')"

definition deferred_clear' :: "bool \<Rightarrow> state \<Rightarrow> outcome" where
  "deferred_clear' reset s =
     (case remove_each (map fst (queries s)) s of
        Inl x \<Rightarrow> Inl x
      | Inr s1 \<Rightarrow>
          if queries s1 \<noteq> [] then Inl (QuerySetObjectNotEmpty, s1)
          else if reset
               then Inr (s1\<lparr>lastId := 0, stats := (stats s1)\<lparr>stats_highlight := 0\<rparr>\<rparr>)
               else Inr s1)"

section \<open>Applying the transaction\<close>

text \<open>What calling a queued closure does.\<close>

fun run_action :: "action \<Rightarrow> state \<Rightarrow> outcome" where
  "run_action (Add nm qs enabled reserve) s = deferred_add' nm qs enabled reserve s"
| "run_action (Append nm qs enabled) s = deferred_append' nm qs enabled s"
| "run_action (Remove nm) s = deferred_remove' nm s"
| "run_action (Enable nm) s = deferred_enable' nm s"
| "run_action (Disable nm) s = deferred_disable' nm s"
| "run_action (Clear reset) s = deferred_clear' reset s"

text \<open>The body of the \<^verbatim>\<open>forEach\<close> of \<^verbatim>\<open>apply\<close> (lines 222-226).\<close>

definition try_action :: "action \<Rightarrow> state \<Rightarrow> state" where
  "try_action act s =
     (case run_action act s of
        Inr s' \<Rightarrow> s'
      | Inl (x, s') \<Rightarrow> console_log (FailedToApply x) s')"

fun transaction_forEach :: "action list \<Rightarrow> state \<Rightarrow> state" where
  "transaction_forEach [] s = s"
| "transaction_forEach (act # acts) s = transaction_forEach acts (try_action act s)"

text \<open>\<^verbatim>\<open>apply\<close> (lines 215-230).\<close>

definition apply_transaction :: "state \<Rightarrow> state" where
  "apply_transaction s =
     (if length (transaction s) = 0 then console_log NothingToApply s
      else (transaction_forEach (transaction s) s)\<lparr>transaction := []\<rparr>)"

section \<open>The selected range\<close>

text \<open>
  \<^verbatim>\<open>getSelectedRange\<close> (lines 285-345) reads the host's selection and the text content.
  A DOM node is its identity and its \<^verbatim>\<open>nodeType\<close> (3 is a text node); \<^verbatim>\<open>===\<close> on nodes is
  equality. \<open>selection_text_length\<close> is \<^verbatim>\<open>sel.toString().length\<close>. The selection is \<open>None\<close>
  when \<^verbatim>\<open>window.getSelection()\<close> is \<^verbatim>\<open>null\<close>.
\<close>

record node =
  node_id :: nat
  nodeType :: nat

record selection =
  anchorNode :: "node option"
  focusNode :: "node option"
  anchorOffset :: int
  focusOffset :: int
  selection_text_length :: nat

text \<open>
  A position descriptor \<^verbatim>\<open>{marker, offset}\<close> over text markers of type \<open>'m\<close>, and a
  \<^verbatim>\<open>Range\<close> of two of them.
\<close>

record 'm descriptor =
  d_marker :: 'm
  d_offset :: int

record 'm selected_range =
  range_start :: "'m descriptor"
  range_end :: "'m descriptor"

text \<open>
  \<^verbatim>\<open>TextContent\<close> and \<^verbatim>\<open>Range\<close> are other modules of the library, and what
  \<^verbatim>\<open>getSelectedRange\<close> calls of them is a parameter: \<^verbatim>\<open>this.content.find\<close>, \<^verbatim>\<open>this.content.at\<close> and
  \<^verbatim>\<open>Range.descriptorRel\<close>. The local variables \<^verbatim>\<open>start\<close> and \<^verbatim>\<open>end\<close> first hold marker
  indices and are then overwritten with descriptors, and line 340 hands \<^verbatim>\<open>start\<close> to
  \<^verbatim>\<open>this.content.at\<close> after line 334 has overwritten it; the argument of \<^verbatim>\<open>at\<close> is
  therefore an index or a descriptor.
\<close>

datatype 'm at_arg = Index int | Descriptor "'m descriptor"

record 'm text_content =
  content_find :: "node \<Rightarrow> int"
  content_at :: "'m at_arg \<Rightarrow> 'm"

text \<open>
  The result is the value returned (\<open>None\<close> is \<^verbatim>\<open>null\<close>) with the messages logged, or the
  exception of reading \<^verbatim>\<open>sel.focusNode.nodeType\<close> when the focus node is \<^verbatim>\<open>null\<close>.
  \<^verbatim>\<open>merge({}, start)\<close> copies the descriptor.
\<close>

definition getSelectedRange ::
  "('m \<Rightarrow> int \<Rightarrow> 'm descriptor) \<Rightarrow> 'm text_content \<Rightarrow> selection option
     \<Rightarrow> error + (logmsg list \<times> 'm selected_range option)" where
  "getSelectedRange descriptorRel content window_selection =
     (case window_selection of
        None \<Rightarrow> Inr ([], None)
      | Some sel \<Rightarrow>
     (case anchorNode sel of
        None \<Rightarrow> Inr ([], None)
      | Some an \<Rightarrow>
     if nodeType an \<noteq> 3 then Inr ([SelectionNotText], None)
     else
     (case focusNode sel of
        None \<Rightarrow> Inl TypeError
      | Some fn \<Rightarrow>
     if nodeType fn \<noteq> 3 then Inr ([SelectionNotText], None)
     else
       (let len = (if an = fn then focusOffset sel - anchorOffset sel
                   else int (selection_text_length sel))
        in
        if len \<le> 0 then Inr ([], None)
        else
          (let start = content_find content an;
               end = (if fn = an then start else content_find content fn)
           in
           if start < 0 \<or> end < 0 then Inr ([SelectionOffsetUnknown], None)
           else if start < end \<or> (start = end \<and> anchorOffset sel < focusOffset sel) then
             (let start' = descriptorRel (content_at content (Index start)) (anchorOffset sel);
                  end' = (if fn = an then start'\<lparr>d_offset := d_offset start' + len - 1\<rparr>
                          else descriptorRel (content_at content (Index end)) (focusOffset sel - 1))
              in Inr ([], Some \<lparr>range_start = start', range_end = end'\<rparr>))
           else
             (let start' = descriptorRel (content_at content (Index end)) (focusOffset sel);
                  end' = (if fn = an then start'\<lparr>d_offset := d_offset start' + len - 1\<rparr>
                          else descriptorRel (content_at content (Descriptor start'))
                                 (anchorOffset sel - 1))
              in Inr ([], Some \<lparr>range_start = start', range_end = end'\<rparr>)))))))"

section \<open>Vocabulary of the properties\<close>

text \<open>The state an action leaves behind, whether it returned or threw.\<close>

definition outcome_state :: "outcome \<Rightarrow> state" where
  "outcome_state r = (case r of Inl (e, s) \<Rightarrow> s | Inr s \<Rightarrow> s)"

text \<open>The sum of \<^verbatim>\<open>q.length\<close> over the registered query sets, and over the enabled ones.\<close>

definition total_length :: "state \<Rightarrow> nat" where
  "total_length s = sum_list (map (\<lambda>(k, a). qlength (heap s a)) (queries s))"

definition enabled_total :: "state \<Rightarrow> int" where
  "enabled_total s =
     sum_list (map (\<lambda>(k, a). if qenabled (heap s a) then int (qlength (heap s a)) else 0) (queries s))"

text \<open>The example inputs: \<open>n\<close> hits at the offsets \<open>0, ..., n - 1\<close>, each of which wraps.\<close>

definition hits_upto :: "nat \<Rightarrow> hit list" where
  "hits_upto n = map (\<lambda>i. \<lparr>start_marker_offset = int i, start_offset = 0, wraps = True\<rparr>) [0..<n]"

text \<open>\<^verbatim>\<open>stats.highlight\<close> lies in \<^verbatim>\<open>[0, maxHighlight)\<close>.\<close>

definition highlight_in_range :: "state \<Rightarrow> bool" where
  "highlight_in_range s \<longleftrightarrow>
     0 \<le> stats_highlight (stats s) \<and> stats_highlight (stats s) < maxHighlight (options s)"

text \<open>
  The state in which \<^verbatim>\<open>deferred_add_\<close> creates the new descriptor: the state it was
  called in, with a set of the same name removed.
\<close>

definition replaced :: "string \<Rightarrow> state \<Rightarrow> state" where
  "replaced nm s = (if map_of (queries s) nm \<noteq> None then outcome_state (remove' nm s) else s)"

text \<open>The marker list is non-decreasing by offset.\<close>

definition markers_sorted :: "state \<Rightarrow> bool" where
  "markers_sorted s \<longleftrightarrow> sorted (map moffset (highlights s))"

text \<open>The number of markers that refer to the descriptor at an address.\<close>

definition count_for :: "nat \<Rightarrow> marker list \<Rightarrow> nat" where
  "count_for a ms = length (filter (\<lambda>m. mquery m = a) ms)"

text \<open>
  The registry and the marker list agree: names and descriptors are registered once, every
  registered descriptor is allocated and has as many markers as its \<^verbatim>\<open>length\<close> says, and
  every marker refers to a registered descriptor.
\<close>

definition consistent :: "state \<Rightarrow> bool" where
  "consistent s \<longleftrightarrow>
     distinct (map fst (queries s)) \<and> distinct (map snd (queries s))
     \<and> (\<forall>a \<in> set (map snd (queries s)).
           a < fresh s \<and> count_for a (highlights s) = qlength (heap s a))
     \<and> (\<forall>m \<in> set (highlights s). mquery m \<in> set (map snd (queries s)))"

text \<open>No \<^verbatim>\<open>highlighter.do(hit)\<close> of a queued action throws.\<close>

definition query_wraps :: "query \<Rightarrow> bool" where
  "query_wraps q = (case q of FinderThrows \<Rightarrow> True | Finder hs \<Rightarrow> list_all wraps hs)"

fun all_wrap :: "action \<Rightarrow> bool" where
  "all_wrap (Add nm (Some qs) enabled reserve) = list_all query_wraps qs"
| "all_wrap (Append nm (Some qs) enabled) = list_all query_wraps qs"
| "all_wrap act = True"

text \<open>
  What the queries of one call yield: the number of hits whose wrap returns, over the
  queries whose finder is constructed, and the messages each query logs when no reserve
  stops its loop.
\<close>

definition wrapped :: "query list \<Rightarrow> nat" where
  "wrapped qs = sum_list (map (\<lambda>q. case q of FinderThrows \<Rightarrow> 0
                                       | Finder hs \<Rightarrow> length (filter wraps hs)) qs)"

definition query_log :: "query \<Rightarrow> logmsg list" where
  "query_log q = (case q of FinderThrows \<Rightarrow> [FinderException]
                  | Finder hs \<Rightarrow> map (\<lambda>h. WrapException) (filter (\<lambda>h. \<not> wraps h) hs))"

text \<open>
  More example inputs: a hit at an offset that wraps, and a highlighter holding the set
  \<^verbatim>\<open>a\<close> with markers at the offsets 2, 5, 5 and a queued add of the set \<^verbatim>\<open>b\<close> with one hit
  at the offset 5.
\<close>

definition hit_at :: "int \<Rightarrow> hit" where
  "hit_at off = \<lparr>start_marker_offset = off, start_offset = 0, wraps = True\<rparr>"

definition two_sets :: state where
  "two_sets =
     add ''b'' (Some [Finder [hit_at 5]]) True None
       (apply_transaction
          (add ''a'' (Some [Finder [hit_at 5, hit_at 2, hit_at 5]]) True None
             (init \<lparr>maxHighlight = 5\<rparr> False)))"

section \<open>What each operation leaves unchanged\<close>

lemma hits_loop_fields [simp]:
  "options (snd (hits_loop a r hs c s)) = options s"
  "debug (snd (hits_loop a r hs c s)) = debug s"
  "transaction (snd (hits_loop a r hs c s)) = transaction s"
  "queries (snd (hits_loop a r hs c s)) = queries s"
  "heap (snd (hits_loop a r hs c s)) = heap s"
  "fresh (snd (hits_loop a r hs c s)) = fresh s"
  "lastId (snd (hits_loop a r hs c s)) = lastId s"
  "stats (snd (hits_loop a r hs c s)) = stats s"
  by (induction hs arbitrary: c s; simp add: console_log_def Let_def)+

lemma queries_forEach_fields [simp]:
  "options (snd (queries_forEach a r qs c s)) = options s"
  "debug (snd (queries_forEach a r qs c s)) = debug s"
  "transaction (snd (queries_forEach a r qs c s)) = transaction s"
  "queries (snd (queries_forEach a r qs c s)) = queries s"
  "heap (snd (queries_forEach a r qs c s)) = heap s"
  "fresh (snd (queries_forEach a r qs c s)) = fresh s"
  "lastId (snd (queries_forEach a r qs c s)) = lastId s"
  "stats (snd (queries_forEach a r qs c s)) = stats s"
  by (induction a r qs c s rule: queries_forEach.induct; simp add: console_log_def split_def)+


lemma add_queries_fields [simp]:
  "options (snd (add_queries' nm a qs en s)) = options s"
  "debug (snd (add_queries' nm a qs en s)) = debug s"
  "transaction (snd (add_queries' nm a qs en s)) = transaction s"
  "queries (snd (add_queries' nm a qs en s)) = queries s"
  "fresh (snd (add_queries' nm a qs en s)) = fresh s"
  "lastId (snd (add_queries' nm a qs en s)) = lastId s"
  "stats_highlight (stats (snd (add_queries' nm a qs en s))) = stats_highlight (stats s)"
  "stats_queries (stats (snd (add_queries' nm a qs en s))) = stats_queries (stats s)"
  by (simp_all add: add_queries'_def Let_def split_def)

lemma remove_Inl: "remove' nm s = Inl (e, s') \<Longrightarrow> s' = s \<and> e = QuerySetNonExistent"
  by (auto simp: remove'_def get'_def Let_def split: option.splits)

lemma remove_fields:
  assumes "remove' nm s = Inr s'"
  shows "options s' = options s" "debug s' = debug s" "transaction s' = transaction s"
    "heap s' = heap s" "fresh s' = fresh s" "lastId s' = lastId s" "console s' = console s"
    "stats_highlight (stats s') = stats_highlight (stats s)"
  using assms by (auto simp: remove'_def get'_def Let_def split: option.splits)

lemma remove_each_fields:
  "options (outcome_state (remove_each ks s)) = options s
   \<and> debug (outcome_state (remove_each ks s)) = debug s
   \<and> transaction (outcome_state (remove_each ks s)) = transaction s
   \<and> heap (outcome_state (remove_each ks s)) = heap s
   \<and> fresh (outcome_state (remove_each ks s)) = fresh s
   \<and> lastId (outcome_state (remove_each ks s)) = lastId s
   \<and> stats_highlight (stats (outcome_state (remove_each ks s))) = stats_highlight (stats s)"
proof (induction ks arbitrary: s)
  case Nil
  show ?case by (simp add: outcome_state_def)
next
  case (Cons k ks)
  show ?case
  proof (cases "remove' k s")
    case (Inl x)
    then show ?thesis
      by (cases x) (auto simp: outcome_state_def dest: remove_Inl)
  next
    case (Inr s')
    then show ?thesis
      using Cons.IH [of s'] by (simp add: remove_fields)
  qed
qed

lemma outcome_state_simps [simp]:
  "outcome_state (Inl (e, s)) = s" "outcome_state (Inr s) = s"
  by (simp_all add: outcome_state_def)

lemma outcome_state_debug_assert [simp]: "outcome_state (debug_assert s) = s"
  by (simp add: debug_assert_def outcome_state_def split: option.splits)

lemma settle_reserve_fields [simp]:
  "options (settle_reserve a r c s) = options s"
  "debug (settle_reserve a r c s) = debug s"
  "transaction (settle_reserve a r c s) = transaction s"
  "queries (settle_reserve a r c s) = queries s"
  "fresh (settle_reserve a r c s) = fresh s"
  "highlights (settle_reserve a r c s) = highlights s"
  "stats (settle_reserve a r c s) = stats s"
  by (simp_all add: settle_reserve_def console_log_def Let_def split: option.splits)

lemma update_statistics_fields [simp]:
  "options (update_statistics s) = options s"
  "debug (update_statistics s) = debug s"
  "transaction (update_statistics s) = transaction s"
  "queries (update_statistics s) = queries s"
  "heap (update_statistics s) = heap s"
  "fresh (update_statistics s) = fresh s"
  "highlights (update_statistics s) = highlights s"
  "lastId (update_statistics s) = lastId s"
  "console (update_statistics s) = console s"
  "stats_total (stats (update_statistics s)) = stats_total (stats s)"
  by (simp_all add: update_statistics_def Let_def)

lemma update_statistics_highlight:
  "stats_highlight (stats (update_statistics s)) =
     (if stats_highlight (stats s) + 1 \<ge> maxHighlight (options s) then 0
      else stats_highlight (stats s) + 1)"
  by (simp add: update_statistics_def Let_def)

lemma new_query_set_fields [simp]:
  "options (snd (new_query_set nm en s)) = options s"
  "debug (snd (new_query_set nm en s)) = debug s"
  "transaction (snd (new_query_set nm en s)) = transaction s"
  "highlights (snd (new_query_set nm en s)) = highlights s"
  "lastId (snd (new_query_set nm en s)) = lastId s"
  "stats (snd (new_query_set nm en s)) = stats s"
  "console (snd (new_query_set nm en s)) = console s"
  "fst (new_query_set nm en s) = fresh s"
  by (simp_all add: new_query_set_def Let_def)

text \<open>The state \<^verbatim>\<open>deferred_add_\<close> starts from once an existing set of the name is removed.\<close>

lemma deferred_add_shape:
  "deferred_add' nm (Some qs) en r s =
     (case (if map_of (queries s) nm \<noteq> None then remove' nm s else Inr s) of
        Inl x \<Rightarrow> Inl x
      | Inr s1 \<Rightarrow>
          debug_assert (update_statistics
            (settle_reserve (fresh s1) (case r of None \<Rightarrow> None | Some r \<Rightarrow> if r < 1 then None else Some r)
               (fst (add_queries' nm (fresh s1) qs en (snd (new_query_set nm en s1))))
               (snd (add_queries' nm (fresh s1) qs en (snd (new_query_set nm en s1)))))))"
  by (simp add: deferred_add'_def deferred_remove'_def Let_def new_query_set_def
      split: sum.splits prod.splits)

lemma remove_registered: "map_of (queries s) nm \<noteq> None \<Longrightarrow> \<exists>s'. remove' nm s = Inr s'"
  by (auto simp: remove'_def get'_def Let_def split: option.splits)


lemma deferred_add_highlight:
  "stats_highlight (stats (outcome_state (deferred_add' nm (Some qs) en r s))) =
     (if stats_highlight (stats s) + 1 \<ge> maxHighlight (options s) then 0
      else stats_highlight (stats s) + 1)
   \<and> options (outcome_state (deferred_add' nm (Some qs) en r s)) = options s"
proof (cases "map_of (queries s) nm \<noteq> None")
  case True
  then obtain s1 where s1: "remove' nm s = Inr s1"
    using remove_registered by blast
  show ?thesis
    using True s1 remove_fields [OF s1]
    by (simp add: deferred_add_shape update_statistics_highlight)
next
  case False
  then show ?thesis
    by (simp add: deferred_add_shape update_statistics_highlight)
qed


lemma transaction_forEach_invariant:
  assumes step: "\<And>act s. act \<in> set acts \<Longrightarrow> P s \<Longrightarrow> P (outcome_state (run_action act s))"
    and lg: "\<And>m s. P s \<Longrightarrow> P (console_log m s)"
  shows "P s \<Longrightarrow> P (transaction_forEach acts s)"
  using step
proof (induction acts arbitrary: s)
  case Nil
  then show ?case by simp
next
  case (Cons act acts)
  have "P (outcome_state (run_action act s))"
    using Cons.prems by simp
  then have "P (try_action act s)"
    by (auto simp: try_action_def outcome_state_def lg split: sum.splits)
  then show ?case
    using Cons.IH Cons.prems(2) by simp
qed

lemma apply_transaction_invariant:
  assumes step: "\<And>act s. act \<in> set (transaction s0) \<Longrightarrow> P s \<Longrightarrow> P (outcome_state (run_action act s))"
    and lg: "\<And>m s. P s \<Longrightarrow> P (console_log m s)"
    and tr: "\<And>s. P s \<Longrightarrow> P (s\<lparr>transaction := []\<rparr>)"
  shows "P s0 \<Longrightarrow> P (apply_transaction s0)"
  unfolding apply_transaction_def
  using transaction_forEach_invariant [of "transaction s0" P s0, OF step lg] lg tr
  by simp

lemma deferred_append_fields:
  "options (outcome_state (deferred_append' nm qs en s)) = options s
   \<and> stats_highlight (stats (outcome_state (deferred_append' nm qs en s))) = stats_highlight (stats s)"
  by (simp add: deferred_append'_def split: option.splits)

lemma deferred_enable_fields:
  "options (outcome_state (deferred_enable' nm s)) = options s
   \<and> stats_highlight (stats (outcome_state (deferred_enable' nm s))) = stats_highlight (stats s)"
  by (simp add: deferred_enable'_def outcome_state_def Let_def split: sum.splits)

lemma deferred_disable_fields:
  "options (outcome_state (deferred_disable' nm s)) = options s
   \<and> stats_highlight (stats (outcome_state (deferred_disable' nm s))) = stats_highlight (stats s)"
  by (simp add: deferred_disable'_def outcome_state_def Let_def split: sum.splits)

lemma deferred_remove_fields:
  "options (outcome_state (deferred_remove' nm s)) = options s
   \<and> stats_highlight (stats (outcome_state (deferred_remove' nm s))) = stats_highlight (stats s)"
proof (cases "remove' nm s")
  case (Inl x)
  then show ?thesis
    by (cases x) (auto simp: deferred_remove'_def outcome_state_def dest: remove_Inl)
next
  case (Inr s')
  then show ?thesis
    by (simp add: deferred_remove'_def outcome_state_def remove_fields)
qed

lemma deferred_clear_fields:
  "options (outcome_state (deferred_clear' reset s)) = options s
   \<and> stats_highlight (stats (outcome_state (deferred_clear' reset s))) \<in> {0, stats_highlight (stats s)}"
  using remove_each_fields [of "map fst (queries s)" s]
  by (auto simp: deferred_clear'_def outcome_state_def split: sum.splits)

lemma run_action_highlight:
  assumes "highlight_in_range s"
  shows "highlight_in_range (outcome_state (run_action act s))"
proof (cases act)
  case (Add nm qs en r)
  show ?thesis
  proof (cases qs)
    case None
    with Add assms show ?thesis
      by (simp add: deferred_add'_def outcome_state_def)
  next
    case (Some q)
    with Add assms show ?thesis
      using deferred_add_highlight [of nm q en r s]
      by (simp add: highlight_in_range_def)
  qed
next
  case (Append nm qs en)
  with assms show ?thesis
    using deferred_append_fields [of nm qs en s] by (simp add: highlight_in_range_def)
next
  case (Remove nm)
  with assms show ?thesis
    using deferred_remove_fields [of nm s] by (simp add: highlight_in_range_def)
next
  case (Enable nm)
  with assms show ?thesis
    using deferred_enable_fields [of nm s] by (simp add: highlight_in_range_def)
next
  case (Disable nm)
  with assms show ?thesis
    using deferred_disable_fields [of nm s] by (simp add: highlight_in_range_def)
next
  case (Clear reset)
  with assms show ?thesis
    using deferred_clear_fields [of reset s] by (auto simp: highlight_in_range_def)
qed

lemma apply_transaction_highlight:
  "highlight_in_range s \<Longrightarrow> highlight_in_range (apply_transaction s)"
  by (rule apply_transaction_invariant [where P = highlight_in_range])
     (simp_all add: run_action_highlight, simp_all add: highlight_in_range_def console_log_def)

section \<open>The binary search and the sorted marker list\<close>

lemma sorted_map_nth_mono:
  "sorted (map f xs) \<Longrightarrow> i \<le> j \<Longrightarrow> j < length xs \<Longrightarrow> f (xs ! i) \<le> f (xs ! j)"
  using sorted_nth_mono [of "map f xs" i j] by simp

lemma bsearch_stop: "\<not> mn < mx \<Longrightarrow> bsearch ms off mn mx = mn"
  by (subst bsearch.simps) simp

lemma bsearch_right:
  "mn < mx \<Longrightarrow> moffset (ms ! nat ((mn + mx) div 2)) < off \<Longrightarrow>
   bsearch ms off mn mx = bsearch ms off ((mn + mx) div 2 + 1) mx"
  by (subst bsearch.simps) (simp add: Let_def)

lemma bsearch_left:
  "mn < mx \<Longrightarrow> \<not> moffset (ms ! nat ((mn + mx) div 2)) < off \<Longrightarrow>
   bsearch ms off mn mx = bsearch ms off mn ((mn + mx) div 2)"
  by (subst bsearch.simps) (simp add: Let_def)

lemma bsearch_bounds:
  "mn \<le> mx \<Longrightarrow> mn \<le> bsearch ms off mn mx \<and> bsearch ms off mn mx \<le> mx"
proof (induction ms off mn mx rule: bsearch.induct)
  case (1 ms off mn mx)
  show ?case
  proof (cases "mn < mx")
    case False
    then have "bsearch ms off mn mx = mn"
      by (rule bsearch_stop)
    with "1.prems" show ?thesis
      by simp
  next
    case True
    define mid where "mid = (mn + mx) div 2"
    have mid: "mn \<le> mid" "mid < mx"
      using True by (simp_all add: mid_def)
    show ?thesis
    proof (cases "moffset (ms ! nat mid) < off")
      case lt: True
      have "mid + 1 \<le> bsearch ms off (mid + 1) mx \<and> bsearch ms off (mid + 1) mx \<le> mx"
        using "1.IH"(1) [OF True mid_def lt] mid by simp
      moreover have "bsearch ms off mn mx = bsearch ms off (mid + 1) mx"
        using bsearch_right [OF True] lt by (simp add: mid_def)
      ultimately show ?thesis
        using mid by simp
    next
      case ge: False
      have "mn \<le> bsearch ms off mn mid \<and> bsearch ms off mn mid \<le> mid"
        using "1.IH"(2) [OF True mid_def ge] mid by simp
      moreover have "bsearch ms off mn mx = bsearch ms off mn mid"
        using bsearch_left [OF True] ge by (simp add: mid_def)
      ultimately show ?thesis
        using mid by simp
    qed
  qed
qed

lemma bsearch_partitions:
  assumes "sorted (map moffset ms)" "0 \<le> mn" "mn \<le> mx" "mx < int (length ms)"
    and "\<forall>i. i < nat mn \<longrightarrow> moffset (ms ! i) < off"
    and "\<forall>i. nat mx < i \<and> i < length ms \<longrightarrow> off \<le> moffset (ms ! i)"
  shows "(\<forall>i. i < nat (bsearch ms off mn mx) \<longrightarrow> moffset (ms ! i) < off)
       \<and> (\<forall>i. nat (bsearch ms off mn mx) < i \<and> i < length ms \<longrightarrow> off \<le> moffset (ms ! i))"
  using assms
proof (induction ms off mn mx rule: bsearch.induct)
  case (1 ms off mn mx)
  show ?case
  proof (cases "mn < mx")
    case False
    then have "bsearch ms off mn mx = mn"
      by (rule bsearch_stop)
    moreover have "mn = mx"
      using False "1.prems"(3) by simp
    ultimately show ?thesis
      using "1.prems"(5,6) by simp
  next
    case True
    define mid where "mid = (mn + mx) div 2"
    have mid: "mn \<le> mid" "mid < mx"
      using True by (simp_all add: mid_def)
    have in_range: "nat mid < length ms"
      using mid "1.prems" by simp
    show ?thesis
    proof (cases "moffset (ms ! nat mid) < off")
      case lt: True
      have below: "\<forall>i. i < nat (mid + 1) \<longrightarrow> moffset (ms ! i) < off"
      proof (intro allI impI)
        fix i assume "i < nat (mid + 1)"
        then have "i \<le> nat mid"
          using mid "1.prems"(2) by simp
        then have "moffset (ms ! i) \<le> moffset (ms ! nat mid)"
          using sorted_map_nth_mono [OF "1.prems"(1) _ in_range] by simp
        with lt show "moffset (ms ! i) < off"
          by simp
      qed
      have "(\<forall>i. i < nat (bsearch ms off (mid + 1) mx) \<longrightarrow> moffset (ms ! i) < off)
          \<and> (\<forall>i. nat (bsearch ms off (mid + 1) mx) < i \<and> i < length ms \<longrightarrow> off \<le> moffset (ms ! i))"
        using "1.IH"(1) [OF True mid_def lt "1.prems"(1) _ _ "1.prems"(4) below "1.prems"(6)]
          mid "1.prems"(2) by simp
      moreover have "bsearch ms off mn mx = bsearch ms off (mid + 1) mx"
        using bsearch_right [OF True] lt by (simp add: mid_def)
      ultimately show ?thesis
        by simp
    next
      case ge: False
      have above: "\<forall>i. nat mid < i \<and> i < length ms \<longrightarrow> off \<le> moffset (ms ! i)"
      proof (intro allI impI)
        fix i assume i: "nat mid < i \<and> i < length ms"
        then have "moffset (ms ! nat mid) \<le> moffset (ms ! i)"
          using sorted_map_nth_mono [OF "1.prems"(1), of "nat mid" i] by simp
        with ge show "off \<le> moffset (ms ! i)"
          by simp
      qed
      have "(\<forall>i. i < nat (bsearch ms off mn mid) \<longrightarrow> moffset (ms ! i) < off)
          \<and> (\<forall>i. nat (bsearch ms off mn mid) < i \<and> i < length ms \<longrightarrow> off \<le> moffset (ms ! i))"
        using "1.IH"(2) [OF True mid_def ge "1.prems"(1) "1.prems"(2) _ _ "1.prems"(5) above]
          mid "1.prems"(4) by simp
      moreover have "bsearch ms off mn mx = bsearch ms off mn mid"
        using bsearch_left [OF True] ge by (simp add: mid_def)
      ultimately show ?thesis
        by simp
    qed
  qed
qed

lemma splice_index_partitions:
  assumes "sorted (map moffset ms)"
  shows "splice_index ms off \<le> length ms
       \<and> (\<forall>i. i < splice_index ms off \<longrightarrow> moffset (ms ! i) < off)
       \<and> (\<forall>i. splice_index ms off \<le> i \<and> i < length ms \<longrightarrow> off \<le> moffset (ms ! i))"
proof (cases "ms = []")
  case True
  then show ?thesis
    by (simp add: splice_index_def bsearch_stop)
next
  case False
  define r where "r = bsearch ms off 0 (int (length ms) - 1)"
  have len: "0 \<le> int (length ms) - 1" "int (length ms) - 1 < int (length ms)"
    using False by (simp_all add: Suc_leI)
  have bounds: "0 \<le> r" "r \<le> int (length ms) - 1"
    using bsearch_bounds [OF len(1), of ms off] by (simp_all add: r_def)
  have part: "(\<forall>i. i < nat r \<longrightarrow> moffset (ms ! i) < off)
       \<and> (\<forall>i. nat r < i \<and> i < length ms \<longrightarrow> off \<le> moffset (ms ! i))"
    unfolding r_def
  proof (rule bsearch_partitions [OF assms _ len(1) len(2)])
    show "\<forall>i. nat (int (length ms) - 1) < i \<and> i < length ms \<longrightarrow> off \<le> moffset (ms ! i)"
      by (intro allI impI) arith
  qed simp_all
  show ?thesis
  proof (cases "moffset (ms ! nat r) < off")
    case True
    have "splice_index ms off = nat (r + 1)"
      using True False by (simp add: splice_index_def r_def [symmetric])
    moreover have "\<forall>i. i < nat (r + 1) \<longrightarrow> moffset (ms ! i) < off"
      using part True bounds by (metis Suc_eq_plus1 less_Suc_eq nat_add_distrib nat_one_as_int of_nat_0_le_iff of_nat_1 zero_le_one)
    moreover have "\<forall>i. nat (r + 1) \<le> i \<and> i < length ms \<longrightarrow> off \<le> moffset (ms ! i)"
      using part bounds by auto
    ultimately show ?thesis
      using bounds by auto
  next
    case ge: False
    have "splice_index ms off = nat r"
      using ge False by (simp add: splice_index_def r_def [symmetric])
    moreover have "\<forall>i. nat r \<le> i \<and> i < length ms \<longrightarrow> off \<le> moffset (ms ! i)"
      using part ge by (metis le_neq_implies_less not_less)
    ultimately show ?thesis
      using part bounds by auto
  qed
qed


lemma insert_marker_sorted:
  assumes "sorted (map moffset ms)"
  shows "sorted (map moffset (insert_marker ms m))"
proof -
  define p where "p = splice_index ms (moffset m)"
  have p: "p \<le> length ms"
    and below: "\<And>i. i < p \<Longrightarrow> moffset (ms ! i) < moffset m"
    and above: "\<And>i. p \<le> i \<Longrightarrow> i < length ms \<Longrightarrow> moffset m \<le> moffset (ms ! i)"
    using splice_index_partitions [OF assms, of "moffset m"] by (simp_all add: p_def)
  have front: "moffset x < moffset m" if "x \<in> set (take p ms)" for x
  proof -
    from that obtain i where "i < length (take p ms)" "x = take p ms ! i"
      by (auto simp: in_set_conv_nth)
    then show ?thesis
      using below [of i] by simp
  qed
  have behind: "moffset m \<le> moffset y" if "y \<in> set (drop p ms)" for y
  proof -
    from that obtain j where "j < length (drop p ms)" "y = drop p ms ! j"
      by (auto simp: in_set_conv_nth)
    then show ?thesis
      using above [of "p + j"] p by simp
  qed
  have "sorted (map moffset (take p ms))" "sorted (map moffset (drop p ms))"
    using assms by (simp_all add: sorted_wrt_take sorted_wrt_drop flip: take_map drop_map)
  then have "sorted (map moffset (take p ms @ m # drop p ms))"
    using front behind by (fastforce simp: sorted_append)
  then show ?thesis
    by (simp add: insert_marker_def splice_def p_def)
qed

lemma drop_markers_filter: "drop_markers a ms = filter (\<lambda>m. mquery m \<noteq> a) ms"
  by (induction ms) simp_all

lemma drop_markers_sorted:
  "sorted (map moffset ms) \<Longrightarrow> sorted (map moffset (drop_markers a ms))"
  by (simp add: drop_markers_filter sorted_filter)

text \<open>A property of the marker list that every insertion for \<open>a\<close> keeps holds after the loops.\<close>

lemma hits_loop_highlights:
  assumes "\<And>ms m. P ms \<Longrightarrow> mquery m = a \<Longrightarrow> P (insert_marker ms m)"
  shows "P (highlights s) \<Longrightarrow> P (highlights (snd (hits_loop a r hs c s)))"
  by (induction hs arbitrary: c s) (simp_all add: console_log_def Let_def assms)

lemma queries_forEach_highlights:
  assumes "\<And>ms m. P ms \<Longrightarrow> mquery m = a \<Longrightarrow> P (insert_marker ms m)"
  shows "P (highlights s) \<Longrightarrow> P (highlights (snd (queries_forEach a r qs c s)))"
proof (induction qs arbitrary: c s)
  case Nil
  then show ?case by simp
next
  case (Cons q qs)
  show ?case
  proof (cases q)
    case FinderThrows
    then show ?thesis
      using Cons.IH [of "console_log FinderException s" c] Cons.prems
      by (simp add: console_log_def)
  next
    case (Finder hs)
    have "P (highlights (snd (hits_loop a r hs c s)))"
      by (rule hits_loop_highlights [of P a]) (fact assms, fact Cons.prems)
    then show ?thesis
      using Finder Cons.IH [of "snd (hits_loop a r hs c s)" "fst (hits_loop a r hs c s)"]
      by (simp add: split_def)
  qed
qed

lemma add_queries_highlights:
  assumes "\<And>ms m. P ms \<Longrightarrow> mquery m = a \<Longrightarrow> P (insert_marker ms m)"
    and "P (highlights s)"
  shows "P (highlights (snd (add_queries' nm a qs en s)))"
proof -
  have "P (highlights (snd (queries_forEach a r qs 0 s)))" for r
    by (rule queries_forEach_highlights [of P a]) (fact assms(1), fact assms(2))
  then show ?thesis
    by (simp add: add_queries'_def Let_def split_def)
qed

section \<open>Sortedness is kept by every action\<close>

lemma deferred_add_replaced:
  "deferred_add' nm (Some qs) en r s =
     debug_assert (update_statistics
       (settle_reserve (fresh (replaced nm s))
          (case r of None \<Rightarrow> None | Some r \<Rightarrow> if r < 1 then None else Some r)
          (fst (add_queries' nm (fresh (replaced nm s)) qs en (snd (new_query_set nm en (replaced nm s)))))
          (snd (add_queries' nm (fresh (replaced nm s)) qs en (snd (new_query_set nm en (replaced nm s)))))))"
proof (cases "map_of (queries s) nm \<noteq> None")
  case True
  then obtain s1 where "remove' nm s = Inr s1"
    using remove_registered by blast
  with True show ?thesis
    by (simp add: deferred_add_shape replaced_def)
next
  case False
  then show ?thesis
    by (simp add: deferred_add_shape replaced_def)
qed

lemma remove_sorted:
  "markers_sorted s \<Longrightarrow> markers_sorted (outcome_state (remove' nm s))"
  by (auto simp: remove'_def get'_def Let_def markers_sorted_def drop_markers_sorted
      split: option.splits)

lemma remove_each_sorted:
  "markers_sorted s \<Longrightarrow> markers_sorted (outcome_state (remove_each ks s))"
proof (induction ks arbitrary: s)
  case Nil
  then show ?case by simp
next
  case (Cons k ks)
  show ?case
  proof (cases "remove' k s")
    case (Inl x)
    then show ?thesis
      using Cons.prems by (cases x) (auto dest: remove_Inl)
  next
    case (Inr s')
    then show ?thesis
      using Cons.IH [of s'] remove_sorted [OF Cons.prems, of k] by simp
  qed
qed

lemma run_action_sorted:
  assumes "markers_sorted s"
  shows "markers_sorted (outcome_state (run_action act s))"
proof (cases act)
  case (Add nm qs en r)
  show ?thesis
  proof (cases qs)
    case None
    with Add assms show ?thesis
      by (simp add: deferred_add'_def)
  next
    case (Some q)
    define s1 where "s1 = replaced nm s"
    have s1: "markers_sorted s1"
      using assms remove_sorted by (simp add: s1_def replaced_def)
    have "sorted (map moffset (highlights (snd (add_queries' nm (fresh s1) q en (snd (new_query_set nm en s1))))))"
      by (rule add_queries_highlights) (use s1 in \<open>simp_all add: insert_marker_sorted markers_sorted_def\<close>)
    then show ?thesis
      using Add Some by (simp add: deferred_add_replaced markers_sorted_def s1_def)
  qed
next
  case (Append nm qs en)
  show ?thesis
  proof (cases "qs = None \<or> map_of (queries s) nm = None")
    case True
    with Append assms show ?thesis
      by (auto simp: deferred_append'_def split: option.splits)
  next
    case False
    then obtain q a where q: "qs = Some q" "map_of (queries s) nm = Some a"
      by auto
    have "sorted (map moffset (highlights (snd (add_queries' nm a q en s))))"
      by (rule add_queries_highlights) (use assms in \<open>simp_all add: insert_marker_sorted markers_sorted_def\<close>)
    then show ?thesis
      using Append q by (simp add: deferred_append'_def markers_sorted_def)
  qed
next
  case (Remove nm)
  with assms show ?thesis
    by (simp add: deferred_remove'_def remove_sorted)
next
  case (Enable nm)
  with assms show ?thesis
    by (auto simp: deferred_enable'_def markers_sorted_def Let_def split: sum.splits)
next
  case (Disable nm)
  with assms show ?thesis
    by (auto simp: deferred_disable'_def markers_sorted_def Let_def split: sum.splits)
next
  case (Clear reset)
  have "markers_sorted (outcome_state (remove_each (map fst (queries s)) s))"
    using assms by (rule remove_each_sorted)
  with Clear show ?thesis
    by (cases "remove_each (map fst (queries s)) s")
       (auto simp: deferred_clear'_def markers_sorted_def)
qed

lemma apply_transaction_sorted:
  "markers_sorted s \<Longrightarrow> markers_sorted (apply_transaction s)"
  by (rule apply_transaction_invariant [where P = markers_sorted])
     (simp_all add: run_action_sorted, simp_all add: markers_sorted_def console_log_def)

lemma transaction_forEach_append:
  "transaction_forEach (xs @ ys) s = transaction_forEach ys (transaction_forEach xs s)"
  by (induction xs arbitrary: s) simp_all

section \<open>The registry and the marker list agree while every wrap succeeds\<close>

lemma count_for_insert_marker:
  "count_for b (insert_marker ms m) = count_for b ms + (if mquery m = b then 1 else 0)"
proof -
  have "length (filter P (take i ms)) + length (filter P (drop i ms)) = length (filter P ms)" for P i
    by (metis append_take_drop_id filter_append length_append)
  then show ?thesis
    by (simp add: count_for_def insert_marker_def splice_def)
qed

lemma set_insert_marker: "set (insert_marker ms m) = insert m (set ms)"
proof -
  have "set (take i ms) \<union> set (drop i ms) = set ms" for i
    by (metis append_take_drop_id set_append)
  then show ?thesis
    by (auto simp: insert_marker_def splice_def)
qed

lemma hits_loop_count:
  "list_all wraps hs \<Longrightarrow>
   count_for a (highlights (snd (hits_loop a r hs c s))) + c
     = count_for a (highlights s) + fst (hits_loop a r hs c s)"
proof (induction hs arbitrary: c s)
  case Nil
  then show ?case by simp
next
  case (Cons h hs)
  let ?s' = "s\<lparr>highlights := insert_marker (highlights s)
               \<lparr>mquery = a, mindex = c, moffset = start_marker_offset h + start_offset h\<rparr>\<rparr>"
  show ?case
  proof (cases "case r of None \<Rightarrow> False | Some x \<Rightarrow> int c \<ge> x")
    case True
    then show ?thesis
      by (simp add: console_log_def)
  next
    case False
    have "count_for a (highlights (snd (hits_loop a r hs (c + 1) ?s'))) + (c + 1)
            = count_for a (highlights ?s') + fst (hits_loop a r hs (c + 1) ?s')"
      using Cons.IH [of "c + 1" ?s'] Cons.prems by simp
    then show ?thesis
      using False Cons.prems by (simp add: Let_def count_for_insert_marker)
  qed
qed

lemma queries_forEach_count:
  "list_all query_wraps qs \<Longrightarrow>
   count_for a (highlights (snd (queries_forEach a r qs c s))) + c
     = count_for a (highlights s) + fst (queries_forEach a r qs c s)"
proof (induction qs arbitrary: c s)
  case Nil
  then show ?case by simp
next
  case (Cons q qs)
  show ?case
  proof (cases q)
    case FinderThrows
    then show ?thesis
      using Cons.IH [of c "console_log FinderException s"] Cons.prems
      by (simp add: console_log_def)
  next
    case (Finder hs)
    let ?c' = "fst (hits_loop a r hs c s)" and ?s' = "snd (hits_loop a r hs c s)"
    have "count_for a (highlights ?s') + c = count_for a (highlights s) + ?c'"
      using Cons.prems Finder by (simp add: hits_loop_count query_wraps_def)
    moreover have "count_for a (highlights (snd (queries_forEach a r qs ?c' ?s'))) + ?c'
            = count_for a (highlights ?s') + fst (queries_forEach a r qs ?c' ?s')"
      using Cons.IH [of ?c' ?s'] Cons.prems by simp
    ultimately show ?thesis
      using Finder by (simp add: split_def)
  qed
qed

lemma add_queries_fst:
  "fst (add_queries' nm a qs en s) =
     fst (queries_forEach a (case qreserve (heap s a) of None \<Rightarrow> None
                             | Some r \<Rightarrow> if r > 0 then Some (r - int (qlength (heap s a))) else None) qs 0 s)"
  by (simp add: add_queries'_def Let_def split_def)

lemma add_queries_heap:
  "heap (snd (add_queries' nm a qs en s)) =
     (heap s)(a := (heap s a)\<lparr>qlength := qlength (heap s a) + fst (add_queries' nm a qs en s)\<rparr>)"
  by (simp add: add_queries'_def Let_def split_def)

lemma add_queries_count:
  assumes "list_all query_wraps qs"
  shows "count_for a (highlights (snd (add_queries' nm a qs en s)))
           = count_for a (highlights s) + fst (add_queries' nm a qs en s)"
proof -
  have "count_for a (highlights (snd (queries_forEach a r qs 0 s)))
          = count_for a (highlights s) + fst (queries_forEach a r qs 0 s)" for r
    using queries_forEach_count [OF assms, of a r 0 s] by simp
  then show ?thesis
    by (simp add: add_queries'_def Let_def split_def)
qed

lemma add_queries_count_other:
  assumes "b \<noteq> a"
  shows "count_for b (highlights (snd (add_queries' nm a qs en s))) = count_for b (highlights s)"
  by (rule add_queries_highlights [where P = "\<lambda>ms. count_for b ms = count_for b (highlights s)"])
     (use assms in \<open>auto simp: count_for_insert_marker\<close>)

lemma add_queries_markers:
  assumes "a \<in> A" "\<forall>m \<in> set (highlights s). mquery m \<in> A"
  shows "\<forall>m \<in> set (highlights (snd (add_queries' nm a qs en s))). mquery m \<in> A"
  by (rule add_queries_highlights [where P = "\<lambda>ms. \<forall>m \<in> set ms. mquery m \<in> A"])
     (use assms in \<open>auto simp: set_insert_marker\<close>)

lemma add_queries_consistent:
  assumes "consistent s" "a \<in> set (map snd (queries s))" "list_all query_wraps qs"
  shows "consistent (snd (add_queries' nm a qs en s))"
proof -
  let ?s' = "snd (add_queries' nm a qs en s)"
  have old: "b < fresh s \<and> count_for b (highlights s) = qlength (heap s b)"
    if "b \<in> set (map snd (queries s))" for b
    using assms(1) that by (auto simp: consistent_def)
  have "b < fresh ?s' \<and> count_for b (highlights ?s') = qlength (heap ?s' b)"
    if "b \<in> set (map snd (queries s))" for b
  proof (cases "b = a")
    case True
    with assms(3) old [OF that] show ?thesis
      by (simp add: add_queries_count add_queries_heap)
  next
    case False
    with old [OF that] show ?thesis
      by (simp add: add_queries_count_other add_queries_heap)
  qed
  moreover have "\<forall>m \<in> set (highlights ?s'). mquery m \<in> set (map snd (queries s))"
    by (rule add_queries_markers) (use assms in \<open>auto simp: consistent_def\<close>)
  ultimately show ?thesis
    using assms(1) by (simp add: consistent_def)
qed


lemma alist_delete_filter: "AList.delete k al = filter (\<lambda>p. fst p \<noteq> k) al"
  by (induction al) auto

lemma remove_consistent:
  assumes "consistent s"
  shows "consistent (outcome_state (remove' nm s))"
proof (cases "map_of (queries s) nm")
  case None
  with assms show ?thesis
    by (simp add: remove'_def get'_def)
next
  case (Some a)
  let ?qs = "AList.delete nm (queries s)" and ?ms = "drop_markers a (highlights s)"
  have st: "outcome_state (remove' nm s) =
              s\<lparr>stats := (stats s)\<lparr>stats_queries := stats_queries (stats s) - 1,
                                      stats_total := stats_total (stats s) - int (qlength (heap s a))\<rparr>,
                highlights := ?ms, queries := ?qs\<rparr>"
    using Some by (simp add: remove'_def get'_def Let_def)
  have d: "distinct (map fst (queries s))" "distinct (map snd (queries s))"
    using assms by (simp_all add: consistent_def)
  have reg: "(nm, a) \<in> set (queries s)"
    using Some by (rule map_of_SomeD)
  have sub: "set ?qs = {p \<in> set (queries s). fst p \<noteq> nm}"
    by (auto simp: alist_delete_filter)
  have other: "b \<noteq> a" if "b \<in> set (map snd ?qs)" for b
  proof
    assume "b = a"
    with that obtain k where k: "(k, a) \<in> set (queries s)" "k \<noteq> nm"
      using sub by auto
    with reg d(2) show False
      by (metis distinct_map eq_key_imp_eq_value fst_conv inj_on_def snd_conv)
  qed
  have "distinct (map fst ?qs)"
    using d(1) by (rule distinct_delete)
  moreover have "distinct (map snd ?qs)"
    using d(2) by (simp add: alist_delete_filter distinct_map_filter)
  moreover have "b < fresh s \<and> count_for b ?ms = qlength (heap s b)" if "b \<in> set (map snd ?qs)" for b
  proof -
    have "b \<in> set (map snd (queries s))"
      using that sub by auto
    then have "b < fresh s \<and> count_for b (highlights s) = qlength (heap s b)"
      using assms by (auto simp: consistent_def)
    moreover have "count_for b ?ms = count_for b (highlights s)"
      using other [OF that]
      by (auto simp: count_for_def drop_markers_filter intro!: arg_cong [where f = length] filter_cong)
    ultimately show ?thesis
      by simp
  qed
  moreover have "mquery m \<in> set (map snd ?qs)" if "m \<in> set ?ms" for m
  proof -
    from that have m: "m \<in> set (highlights s)" "mquery m \<noteq> a"
      by (simp_all add: drop_markers_filter)
    then obtain k where k: "(k, mquery m) \<in> set (queries s)"
      using assms by (auto simp: consistent_def)
    have "k \<noteq> nm"
    proof
      assume "k = nm"
      with k reg d(1) have "mquery m = a"
        by (metis eq_key_imp_eq_value)
      with m(2) show False by simp
    qed
    with k sub show ?thesis
      by force
  qed
  ultimately show ?thesis
    unfolding st by (simp add: consistent_def)
qed

lemma remove_each_consistent:
  "consistent s \<Longrightarrow> consistent (outcome_state (remove_each ks s))"
proof (induction ks arbitrary: s)
  case Nil
  then show ?case by simp
next
  case (Cons k ks)
  show ?case
  proof (cases "remove' k s")
    case (Inl x)
    then show ?thesis
      using Cons.prems by (cases x) (auto dest: remove_Inl)
  next
    case (Inr s')
    then show ?thesis
      using Cons.IH [of s'] remove_consistent [OF Cons.prems, of k] by simp
  qed
qed

lemma alist_update_fresh: "map_of al k = None \<Longrightarrow> AList.update k v al = al @ [(k, v)]"
  by (induction al) (auto split: if_splits)

lemma replaced_unregistered: "distinct (map fst (queries s)) \<Longrightarrow> map_of (queries (replaced nm s)) nm = None"
  by (auto simp: replaced_def remove'_def get'_def Let_def delete_conv' split: option.splits)

lemma replaced_consistent: "consistent s \<Longrightarrow> consistent (replaced nm s)"
  by (simp add: replaced_def remove_consistent)

lemma new_query_set_consistent:
  assumes "consistent s" "map_of (queries s) nm = None"
  shows "consistent (snd (new_query_set nm en s))"
proof -
  let ?a = "fresh s"
  let ?q = "\<lparr>qname = nm, qenabled = en, id_highlight = stats_highlight (stats s),
             qid = lastId s, qlength = 0, qreserve = None\<rparr>"
  have st: "snd (new_query_set nm en s) =
              s\<lparr>fresh := ?a + 1, heap := (heap s)(?a := ?q), queries := queries s @ [(nm, ?a)]\<rparr>"
    using assms(2) by (simp add: new_query_set_def Let_def alist_update_fresh)
  have d: "distinct (map fst (queries s))" "distinct (map snd (queries s))"
    using assms(1) by (simp_all add: consistent_def)
  have old: "b < ?a \<and> count_for b (highlights s) = qlength (heap s b)"
    if "b \<in> set (map snd (queries s))" for b
    using assms(1) that by (auto simp: consistent_def)
  have mk: "mquery m \<in> set (map snd (queries s))" if "m \<in> set (highlights s)" for m
    using assms(1) that by (auto simp: consistent_def)
  have unused: "?a \<notin> set (map snd (queries s))"
    using old by blast
  have "mquery m \<noteq> ?a" if "m \<in> set (highlights s)" for m
    using mk [OF that] unused by metis
  then have "filter (\<lambda>m. mquery m = ?a) (highlights s) = []"
    by (simp add: filter_empty_conv)
  then have none: "count_for ?a (highlights s) = 0"
    by (simp add: count_for_def)
  have name_new: "nm \<notin> set (map fst (queries s))"
    using assms(2) by (simp add: map_of_eq_None_iff)
  have "b < ?a + 1 \<and> count_for b (highlights s) = qlength (((heap s)(?a := ?q)) b)"
    if "b \<in> set (map snd (queries s @ [(nm, ?a)]))" for b
  proof (cases "b = ?a")
    case True
    with none show ?thesis by simp
  next
    case False
    with that have "b \<in> set (map snd (queries s))"
      by auto
    with old [of b] False show ?thesis
      by simp
  qed
  moreover have "mquery m \<in> set (map snd (queries s @ [(nm, ?a)]))" if "m \<in> set (highlights s)" for m
    using mk [OF that] by auto
  ultimately show ?thesis
    unfolding st using d unused name_new by (simp add: consistent_def)
qed

lemma settle_reserve_heap:
  "qlength (heap (settle_reserve a r c s) b) = qlength (heap s b)"
  by (simp add: settle_reserve_def console_log_def Let_def split: option.splits)

lemma settle_reserve_consistent:
  "consistent s \<Longrightarrow> consistent (settle_reserve a r c s)"
  by (simp add: consistent_def settle_reserve_heap)

lemma update_statistics_consistent:
  "consistent s \<Longrightarrow> consistent (update_statistics s)"
  by (simp add: consistent_def)

lemma new_query_set_registered:
  "fresh s \<in> set (map snd (queries (snd (new_query_set nm en s))))"
  by (simp add: new_query_set_def Let_def image_iff) (metis update_conv' fun_upd_same map_of_SomeD snd_conv)


lemma consistent_heap_enabled:
  "consistent s \<Longrightarrow> consistent (s\<lparr>heap := (heap s)(a := (heap s a)\<lparr>qenabled := en\<rparr>)\<rparr>)"
  by (simp add: consistent_def)

lemma consistent_stats: "consistent (s\<lparr>stats := st\<rparr>) = consistent s"
  by (simp add: consistent_def)

lemma deferred_enable_consistent:
  "consistent s \<Longrightarrow> consistent (outcome_state (deferred_enable' nm s))"
  by (auto simp: deferred_enable'_def Let_def consistent_stats consistent_heap_enabled
      split: sum.splits)

lemma deferred_disable_consistent:
  "consistent s \<Longrightarrow> consistent (outcome_state (deferred_disable' nm s))"
  by (auto simp: deferred_disable'_def Let_def consistent_stats consistent_heap_enabled
      split: sum.splits)

lemma deferred_clear_consistent:
  assumes "consistent s"
  shows "consistent (outcome_state (deferred_clear' reset s))"
proof -
  have c: "consistent (outcome_state (remove_each (map fst (queries s)) s))"
    using assms by (rule remove_each_consistent)
  show ?thesis
  proof (cases "remove_each (map fst (queries s)) s")
    case (Inl x)
    with c show ?thesis
      by (cases x) (simp add: deferred_clear'_def)
  next
    case (Inr s1)
    with c have "consistent s1" by simp
    then have "consistent (s1\<lparr>lastId := 0, stats := (stats s1)\<lparr>stats_highlight := 0\<rparr>\<rparr>)"
      by (simp add: consistent_def)
    with Inr \<open>consistent s1\<close> show ?thesis
      by (simp add: deferred_clear'_def)
  qed
qed

lemma deferred_add_consistent:
  assumes "consistent s" "list_all query_wraps qs"
  shows "consistent (outcome_state (deferred_add' nm (Some qs) en r s))"
proof -
  let ?s1 = "replaced nm s"
  let ?s2 = "snd (new_query_set nm en ?s1)"
  have "consistent ?s1"
    using assms(1) by (rule replaced_consistent)
  moreover have "map_of (queries ?s1) nm = None"
    using assms(1) by (simp add: replaced_unregistered consistent_def)
  ultimately have "consistent ?s2"
    by (rule new_query_set_consistent)
  then have "consistent (snd (add_queries' nm (fresh ?s1) qs en ?s2))"
    using new_query_set_registered assms(2) by (rule add_queries_consistent)
  then show ?thesis
    by (simp add: deferred_add_replaced settle_reserve_consistent update_statistics_consistent)
qed

lemma deferred_append_consistent:
  assumes "consistent s" "list_all query_wraps qs"
  shows "consistent (outcome_state (deferred_append' nm (Some qs) en s))"
proof (cases "map_of (queries s) nm")
  case None
  with assms(1) show ?thesis
    by (simp add: deferred_append'_def)
next
  case (Some a)
  then have "a \<in> set (map snd (queries s))"
    by (force dest: map_of_SomeD)
  with assms have "consistent (snd (add_queries' nm a qs en s))"
    by (simp add: add_queries_consistent)
  with Some show ?thesis
    by (simp add: deferred_append'_def)
qed

lemma run_action_consistent:
  assumes "consistent s" "all_wrap act"
  shows "consistent (outcome_state (run_action act s))"
proof (cases act)
  case (Add nm qs en r)
  with assms show ?thesis
    by (cases qs) (simp_all add: deferred_add_consistent, simp add: deferred_add'_def)
next
  case (Append nm qs en)
  with assms show ?thesis
    by (cases qs) (simp_all add: deferred_append_consistent, simp add: deferred_append'_def)
next
  case (Remove nm)
  with assms show ?thesis
    by (simp add: deferred_remove'_def remove_consistent)
next
  case (Enable nm)
  with assms show ?thesis
    by (simp add: deferred_enable_consistent)
next
  case (Disable nm)
  with assms show ?thesis
    by (simp add: deferred_disable_consistent)
next
  case (Clear reset)
  with assms show ?thesis
    by (simp add: deferred_clear_consistent)
qed

lemma apply_transaction_consistent:
  assumes "consistent s" "list_all all_wrap (transaction s)"
  shows "consistent (apply_transaction s)"
proof (rule apply_transaction_invariant [where P = consistent])
  show "consistent (outcome_state (run_action act t))"
    if "act \<in> set (transaction s)" "consistent t" for act t
    using that assms(2) by (simp add: run_action_consistent list_all_iff)
qed (use assms(1) in \<open>simp_all add: consistent_def console_log_def\<close>)

lemma sum_list_indicator:
  "distinct xs \<Longrightarrow> x \<in> set xs \<Longrightarrow> sum_list (map (\<lambda>a. if x = a then 1 else 0 :: nat) xs) = 1"
  by (induction xs) auto

lemma length_by_query:
  "distinct as \<Longrightarrow> \<forall>m \<in> set ms. mquery m \<in> set as \<Longrightarrow>
   sum_list (map (\<lambda>a. count_for a ms) as) = length ms"
proof (induction ms)
  case Nil
  then show ?case by (simp add: count_for_def)
next
  case (Cons m ms)
  have "sum_list (map (\<lambda>a. count_for a (m # ms)) as)
          = sum_list (map (\<lambda>a. (if mquery m = a then 1 else 0) + count_for a ms) as)"
    by (rule arg_cong [where f = sum_list]) (simp add: count_for_def)
  also have "\<dots> = sum_list (map (\<lambda>a. if mquery m = a then 1 else 0) as)
                   + sum_list (map (\<lambda>a. count_for a ms) as)"
    by (simp add: sum_list_addf)
  also have "\<dots> = 1 + length ms"
    using Cons by (simp add: sum_list_indicator)
  finally show ?case by simp
qed

lemma consistent_length:
  assumes "consistent s"
  shows "length (highlights s) = total_length s"
proof -
  have "total_length s = sum_list (map (\<lambda>a. qlength (heap s a)) (map snd (queries s)))"
    by (simp add: total_length_def comp_def split_def)
  also have "\<dots> = sum_list (map (\<lambda>a. count_for a (highlights s)) (map snd (queries s)))"
    using assms by (intro arg_cong [where f = sum_list] map_cong) (auto simp: consistent_def)
  also have "\<dots> = length (highlights s)"
    using assms by (intro length_by_query) (auto simp: consistent_def)
  finally show ?thesis by simp
qed

lemma init_consistent: "consistent (init opts dbg)"
  by (simp add: consistent_def init_def)

section \<open>Queries added to a descriptor without a reserve\<close>

lemma hits_loop_unreserved:
  "fst (hits_loop a None hs c s) = c + length (filter wraps hs)
   \<and> console (snd (hits_loop a None hs c s)) = console s @ query_log (Finder hs)"
  by (induction hs arbitrary: c s) (simp_all add: query_log_def console_log_def Let_def)

lemma queries_forEach_unreserved:
  "fst (queries_forEach a None qs c s) = c + wrapped qs
   \<and> console (snd (queries_forEach a None qs c s)) = console s @ concat (map query_log qs)"
proof (induction qs arbitrary: c s)
  case Nil
  show ?case by (simp add: wrapped_def)
next
  case (Cons q qs)
  show ?case
  proof (cases q)
    case FinderThrows
    then show ?thesis
      using Cons.IH [of c "console_log FinderException s"]
      by (simp add: wrapped_def query_log_def console_log_def)
  next
    case (Finder hs)
    then show ?thesis
      using Cons.IH [of "fst (hits_loop a None hs c s)" "snd (hits_loop a None hs c s)"]
        hits_loop_unreserved [of a hs c s]
      by (simp add: split_def wrapped_def)
  qed
qed

lemma add_queries_unreserved:
  assumes "qreserve (heap s a) = None"
  shows "fst (add_queries' nm a qs en s) = wrapped qs"
    and "console (snd (add_queries' nm a qs en s)) = console s @ concat (map query_log qs)"
    and "qlength (heap (snd (add_queries' nm a qs en s)) a) = qlength (heap s a) + wrapped qs"
    and "qreserve (heap (snd (add_queries' nm a qs en s)) a) = None"
  using assms queries_forEach_unreserved [of a qs 0 s]
  by (simp_all add: add_queries'_def Let_def split_def)

lemma replaced_fields [simp]:
  "fresh (replaced nm s) = fresh s" "console (replaced nm s) = console s"
proof -
  have "fresh (outcome_state (remove' nm s)) = fresh s \<and> console (outcome_state (remove' nm s)) = console s"
    by (cases "remove' nm s") (auto dest: remove_Inl simp: remove_fields)
  then show "fresh (replaced nm s) = fresh s" "console (replaced nm s) = console s"
    by (simp_all add: replaced_def)
qed

section \<open>C1: a wrap that fails\<close>

text \<open>
  C1. On a wrap failure the state should be left as if the hit had not occurred. In
  \<^verbatim>\<open>add_queries_\<close> the marker is spliced into \<^verbatim>\<open>this.highlights\<close> before
  \<^verbatim>\<open>highlighter.do(hit)\<close> is attempted, and the \<^verbatim>\<open>catch\<close> does not take it out again: for one
  query with one hit whose wrap throws, the failure is logged and \<^verbatim>\<open>q.length\<close> stays 0, but
  the marker of the hit remains, and the highlighter's own \<^verbatim>\<open>assert_\<close> rejects the state.
\<close>

theorem C1_wrap_failure_leaves_marker:
  "let s = apply_transaction
             (add ''q'' (Some [Finder [\<lparr>start_marker_offset = 7, start_offset = 0, wraps = False\<rparr>]])
                True None (init \<lparr>maxHighlight = 5\<rparr> False))
   in console s = [WrapException]
      \<and> map_of (queries s) ''q'' = Some 0
      \<and> qlength (heap s 0) = 0
      \<and> highlights s = [\<lparr>mquery = 0, mindex = 0, moffset = 7\<rparr>]
      \<and> assert' s = Some HighlightOutOfPosition"
  by code_simp

section \<open>C2: the total of the enabled highlights\<close>

text \<open>
  C2. \<^verbatim>\<open>stats.total\<close> should be the sum of \<^verbatim>\<open>q.length\<close> over the enabled query sets.
  \<^verbatim>\<open>remove_\<close> subtracts \<^verbatim>\<open>q.length\<close> whether or not the set is enabled, although
  \<^verbatim>\<open>deferred_disable_\<close> has already subtracted it: adding a set with one hit, disabling it
  and removing it leaves \<^verbatim>\<open>stats.total\<close> at -1 with an empty registry.
\<close>

theorem C2_remove_disabled_decrements_total:
  "let s = apply_transaction
             (remove ''a'' (disable ''a''
                (add ''a'' (Some [Finder (hits_upto 1)]) True None (init \<lparr>maxHighlight = 5\<rparr> False))))
   in console s = [] \<and> queries s = [] \<and> enabled_total s = 0 \<and> stats_total (stats s) = - 1"
  by code_simp

section \<open>C3: a reserve smaller than the number of hits\<close>

text \<open>
  C3, as stated: with more hits than the reserve, exactly \<^verbatim>\<open>reserve\<close> hits are wrapped and
  the rest is suppressed. \<^verbatim>\<open>deferred_add_\<close> creates the descriptor without a \<^verbatim>\<open>reserve\<close>
  property, so the test of line 438 is off during an add: with a reserve of 5 and 10 hits
  all 10 are wrapped and counted, nothing is suppressed, the branch of line 591 logs
  \<^verbatim>\<open>'Invalid or insufficient reserve specified'\<close>, and \<^verbatim>\<open>lastId\<close> stays 0.
\<close>

theorem C3_counterexample:
  "qlength (heap (apply_transaction (add ''a'' (Some [Finder (hits_upto 10)]) True (Some 5)
      (init \<lparr>maxHighlight = 5\<rparr> False))) 0) = 10
   \<and> length (highlights (apply_transaction (add ''a'' (Some [Finder (hits_upto 10)]) True (Some 5)
      (init \<lparr>maxHighlight = 5\<rparr> False)))) = 10
   \<and> console (apply_transaction (add ''a'' (Some [Finder (hits_upto 10)]) True (Some 5)
      (init \<lparr>maxHighlight = 5\<rparr> False))) = [InsufficientReserve]
   \<and> lastId (apply_transaction (add ''a'' (Some [Finder (hits_upto 10)]) True (Some 5)
      (init \<lparr>maxHighlight = 5\<rparr> False))) = 0"
  by code_simp

text \<open>
  C3, amended. For an add with a reserve \<open>r \<ge> 1\<close> that is at most the number of hits whose
  wrap returns, the reserve caps nothing: the new descriptor is registered under the name,
  its \<^verbatim>\<open>length\<close> is the number of all those hits, its \<^verbatim>\<open>reserve\<close> is set to that number,
  and the call logs what the queries log without a reserve, followed by
  \<^verbatim>\<open>'Invalid or insufficient reserve specified'\<close>.
\<close>

theorem C3_reserve_does_not_cap_add:
  assumes "1 \<le> r" and "r \<le> int (wrapped qs)"
  shows "map_of (queries (outcome_state (deferred_add' nm (Some qs) en (Some r) s))) nm = Some (fresh s)
       \<and> qlength (heap (outcome_state (deferred_add' nm (Some qs) en (Some r) s)) (fresh s)) = wrapped qs
       \<and> qreserve (heap (outcome_state (deferred_add' nm (Some qs) en (Some r) s)) (fresh s))
           = Some (int (wrapped qs))
       \<and> console (outcome_state (deferred_add' nm (Some qs) en (Some r) s))
           = console s @ concat (map query_log qs) @ [InsufficientReserve]"
proof -
  let ?s1 = "replaced nm s"
  let ?s2 = "snd (new_query_set nm en ?s1)"
  let ?s3 = "snd (add_queries' nm (fresh s) qs en ?s2)"
  have h2: "qreserve (heap ?s2 (fresh s)) = None" "qlength (heap ?s2 (fresh s)) = 0"
    by (simp_all add: new_query_set_def Let_def)
  have q2: "map_of (queries ?s2) nm = Some (fresh s)"
    by (simp add: new_query_set_def Let_def update_conv')
  note a = add_queries_unreserved [OF h2(1), of nm qs en]
  have out: "outcome_state (deferred_add' nm (Some qs) en (Some r) s)
               = update_statistics (settle_reserve (fresh s) (Some r) (wrapped qs) ?s3)"
    using assms(1) by (simp add: deferred_add_replaced a(1))
  have "\<not> r > int (wrapped qs)"
    using assms(2) by simp
  then have settle: "settle_reserve (fresh s) (Some r) (wrapped qs) ?s3
      = (console_log InsufficientReserve ?s3)\<lparr>heap := (heap (console_log InsufficientReserve ?s3))
          (fresh s := (heap (console_log InsufficientReserve ?s3) (fresh s))\<lparr>qreserve := Some (int (wrapped qs))\<rparr>)\<rparr>"
    by (simp add: settle_reserve_def Let_def)
  show ?thesis
    unfolding out settle using a(2,3) h2(2) q2
    by (simp add: console_log_def)
qed

theorem C3_witness:
  "qlength (heap (outcome_state (deferred_add' ''a'' (Some [Finder (hits_upto 10)]) True (Some 5)
      (init \<lparr>maxHighlight = 5\<rparr> False))) 0) = 10
   \<and> qreserve (heap (outcome_state (deferred_add' ''a'' (Some [Finder (hits_upto 10)]) True (Some 5)
      (init \<lparr>maxHighlight = 5\<rparr> False))) 0) = Some 10
   \<and> console (outcome_state (deferred_add' ''a'' (Some [Finder (hits_upto 10)]) True (Some 5)
      (init \<lparr>maxHighlight = 5\<rparr> False))) = [InsufficientReserve]"
proof -
  have w: "wrapped [Finder (hits_upto 10)] = 10"
    by code_simp
  have l: "concat (map query_log [Finder (hits_upto 10)]) = []"
    by code_simp
  have "(1::int) \<le> 5" "5 \<le> int (wrapped [Finder (hits_upto 10)])"
    by (simp_all add: w)
  from C3_reserve_does_not_cap_add [OF this, of "''a''" True "init \<lparr>maxHighlight = 5\<rparr> False"]
  show ?thesis
    unfolding w l by (simp add: init_def)
qed

section \<open>C4: the next highlight id\<close>

text \<open>
  C4. With a reserve greater than the count the next-id counter should advance by the
  reserve, otherwise by the count. Line 588 assigns \<^verbatim>\<open>this.lastId = reserve\<close>, and the
  branch of an insufficient reserve does not touch \<^verbatim>\<open>lastId\<close>. After a first set with 10
  hits (\<^verbatim>\<open>lastId\<close> is 10), a second set with 2 hits and a reserve of 5 gets the id 10 and
  leaves \<^verbatim>\<open>lastId\<close> at 5, inside the ids of the first set; with 10 hits and a reserve of 5
  it leaves \<^verbatim>\<open>lastId\<close> at 10, the id of its own first highlight.
\<close>

theorem C4_lastId_assigned_not_advanced:
  "let s1 = apply_transaction
              (add ''a'' (Some [Finder (hits_upto 10)]) True None (init \<lparr>maxHighlight = 5\<rparr> False));
       s2 = apply_transaction (add ''b'' (Some [Finder (hits_upto 2)]) True (Some 5) s1);
       s3 = apply_transaction (add ''b'' (Some [Finder (hits_upto 10)]) True (Some 5) s1)
   in lastId s1 = 10
      \<and> map_of (queries s2) ''b'' = Some 1 \<and> qid (heap s2 1) = 10 \<and> qlength (heap s2 1) = 2
      \<and> qreserve (heap s2 1) = Some 5 \<and> lastId s2 = 5
      \<and> map_of (queries s3) ''b'' = Some 1 \<and> qid (heap s3 1) = 10 \<and> qlength (heap s3 1) = 10
      \<and> lastId s3 = 10"
  by code_simp

section \<open>C5: where a marker is inserted\<close>

text \<open>
  C5, as stated: ties are inserted after the equal entries. The index of line 458 is the
  first one whose stored offset is not below the new offset, so a marker lands before the
  entries of its own offset: of two hits at the offset 5 the second comes first.
\<close>

theorem C5_counterexample:
  "insert_marker [\<lparr>mquery = 0, mindex = 0, moffset = 5\<rparr>] \<lparr>mquery = 0, mindex = 1, moffset = 5\<rparr>
     = [\<lparr>mquery = 0, mindex = 1, moffset = 5\<rparr>, \<lparr>mquery = 0, mindex = 0, moffset = 5\<rparr>]
   \<and> highlights (apply_transaction
        (add ''q'' (Some [Finder [hit_at 5, hit_at 5]]) True None (init \<lparr>maxHighlight = 5\<rparr> False)))
     = [\<lparr>mquery = 0, mindex = 1, moffset = 5\<rparr>, \<lparr>mquery = 0, mindex = 0, moffset = 5\<rparr>]"
  by code_simp

text \<open>
  C5, amended. In a marker list that is non-decreasing by offset, the index a new marker
  is spliced in at has only smaller offsets before it and no smaller offset from it on (it
  is the first index whose stored offset is greater than or equal to the new one, or the
  end), so ties are inserted before the equal entries; \<^verbatim>\<open>apply()\<close> keeps the list
  non-decreasing; and as long as no wrap fails, the registry and the marker list agree
  after \<^verbatim>\<open>apply()\<close> as they do in the constructor's state, so that the length of the list is
  the sum of \<^verbatim>\<open>q.length\<close> over all query sets.
\<close>

theorem C5_markers_sorted_ties_first:
  assumes "sorted (map moffset (highlights s))"
  shows "splice_index (highlights s) off \<le> length (highlights s)
       \<and> (\<forall>i. i < splice_index (highlights s) off \<longrightarrow> moffset (highlights s ! i) < off)
       \<and> (\<forall>i. splice_index (highlights s) off \<le> i \<and> i < length (highlights s) \<longrightarrow>
              off \<le> moffset (highlights s ! i))
       \<and> insert_marker (highlights s) m
           = take (splice_index (highlights s) (moffset m)) (highlights s)
             @ m # drop (splice_index (highlights s) (moffset m)) (highlights s)
       \<and> sorted (map moffset (highlights (apply_transaction s)))
       \<and> consistent (init opts dbg)
       \<and> (consistent s \<and> list_all all_wrap (transaction s) \<longrightarrow>
            consistent (apply_transaction s)
            \<and> length (highlights (apply_transaction s)) = total_length (apply_transaction s))"
proof -
  have "markers_sorted (apply_transaction s)"
    using assms by (intro apply_transaction_sorted) (simp add: markers_sorted_def)
  then have "sorted (map moffset (highlights (apply_transaction s)))"
    by (simp add: markers_sorted_def)
  moreover have "consistent (apply_transaction s)
      \<and> length (highlights (apply_transaction s)) = total_length (apply_transaction s)"
    if "consistent s" "list_all all_wrap (transaction s)"
    using apply_transaction_consistent [OF that] by (simp add: consistent_length)
  ultimately show ?thesis
    using splice_index_partitions [OF assms, of off]
    by (simp add: insert_marker_def splice_def init_consistent)
qed

theorem C5_witness:
  "map moffset (highlights two_sets) = [2, 5, 5]
   \<and> splice_index (highlights two_sets) 5 = 1
   \<and> map moffset (highlights (apply_transaction two_sets)) = [2, 5, 5, 5]
   \<and> map mquery (highlights (apply_transaction two_sets)) = [0, 1, 0, 0]
   \<and> total_length (apply_transaction two_sets) = 4
   \<and> length (highlights (apply_transaction two_sets)) = total_length (apply_transaction two_sets)"
proof -
  have ms: "map moffset (highlights two_sets) = [2, 5, 5]"
    by code_simp
  then have srt: "sorted (map moffset (highlights two_sets))"
    by simp
  have c: "consistent two_sets"
    by code_simp
  have w: "list_all all_wrap (transaction two_sets)"
    by code_simp
  have "length (highlights (apply_transaction two_sets)) = total_length (apply_transaction two_sets)"
    using C5_markers_sorted_ties_first [OF srt, of 5] c w by blast
  moreover have "splice_index (highlights two_sets) 5 = 1"
    "map moffset (highlights (apply_transaction two_sets)) = [2, 5, 5, 5]"
    "map mquery (highlights (apply_transaction two_sets)) = [0, 1, 0, 0]"
    "total_length (apply_transaction two_sets) = 4"
    by code_simp+
  ultimately show ?thesis
    using ms by simp
qed

section \<open>C6: a selection made from right to left\<close>

text \<open>
  C6. Within one text node the length should be the absolute difference of the two
  offsets, so that a selection made from right to left gives the range of the same
  selection made from left to right. Line 304 computes \<^verbatim>\<open>focusOffset - anchorOffset\<close>
  and line 305 rejects a result that is not positive: with the anchor at 5 and the focus
  at 2 of the same text node the result is \<^verbatim>\<open>null\<close>, whatever the text content, while
  the anchor at 2 and the focus at 5 give the range from 2 to 4. Across two text nodes,
  line 340 asks \<^verbatim>\<open>this.content.at\<close> for the marker of \<^verbatim>\<open>start\<close>, which line 334 has
  overwritten with a descriptor: in a content whose \<^verbatim>\<open>at\<close> answers an index with that
  index and anything else with \<open>None\<close>, the selection from offset 7 of the second node back
  to offset 2 of the first ends at the marker \<open>None\<close>, and the same selection made from left
  to right ends at the marker of index 1.
\<close>

theorem C6_right_to_left_not_normalized:
  "getSelectedRange D c
     (Some \<lparr>anchorNode = Some \<lparr>node_id = 1, nodeType = 3\<rparr>,
            focusNode = Some \<lparr>node_id = 1, nodeType = 3\<rparr>,
            anchorOffset = 5, focusOffset = 2, selection_text_length = 3\<rparr>)
   = Inr ([], None)
   \<and> getSelectedRange (\<lambda>m off. \<lparr>d_marker = m, d_offset = off\<rparr>)
       \<lparr>content_find = (\<lambda>n. int (node_id n)),
        content_at = (\<lambda>x. case x of Index i \<Rightarrow> Some i | Descriptor d \<Rightarrow> None)\<rparr>
       (Some \<lparr>anchorNode = Some \<lparr>node_id = 1, nodeType = 3\<rparr>,
              focusNode = Some \<lparr>node_id = 1, nodeType = 3\<rparr>,
              anchorOffset = 2, focusOffset = 5, selection_text_length = 3\<rparr>)
     = Inr ([], Some \<lparr>range_start = \<lparr>d_marker = Some 1, d_offset = 2\<rparr>,
                      range_end = \<lparr>d_marker = Some 1, d_offset = 4\<rparr>\<rparr>)
   \<and> getSelectedRange (\<lambda>m off. \<lparr>d_marker = m, d_offset = off\<rparr>)
       \<lparr>content_find = (\<lambda>n. int (node_id n)),
        content_at = (\<lambda>x. case x of Index i \<Rightarrow> Some i | Descriptor d \<Rightarrow> None)\<rparr>
       (Some \<lparr>anchorNode = Some \<lparr>node_id = 1, nodeType = 3\<rparr>,
              focusNode = Some \<lparr>node_id = 0, nodeType = 3\<rparr>,
              anchorOffset = 7, focusOffset = 2, selection_text_length = 9\<rparr>)
     = Inr ([], Some \<lparr>range_start = \<lparr>d_marker = Some 0, d_offset = 2\<rparr>,
                      range_end = \<lparr>d_marker = None, d_offset = 6\<rparr>\<rparr>)
   \<and> getSelectedRange (\<lambda>m off. \<lparr>d_marker = m, d_offset = off\<rparr>)
       \<lparr>content_find = (\<lambda>n. int (node_id n)),
        content_at = (\<lambda>x. case x of Index i \<Rightarrow> Some i | Descriptor d \<Rightarrow> None)\<rparr>
       (Some \<lparr>anchorNode = Some \<lparr>node_id = 0, nodeType = 3\<rparr>,
              focusNode = Some \<lparr>node_id = 1, nodeType = 3\<rparr>,
              anchorOffset = 2, focusOffset = 7, selection_text_length = 9\<rparr>)
     = Inr ([], Some \<lparr>range_start = \<lparr>d_marker = Some 0, d_offset = 2\<rparr>,
                      range_end = \<lparr>d_marker = Some 1, d_offset = 6\<rparr>\<rparr>)"
  by (simp add: getSelectedRange_def)

section \<open>C7: selections that give no range\<close>

text \<open>
  C7. \<^verbatim>\<open>getSelectedRange\<close> returns \<^verbatim>\<open>null\<close>, and does not throw, when there is no
  selection or no anchor node, when the anchor or the focus node is not a text node, and
  when the length of the selection is not positive; whenever it returns a range the
  length computed at line 303 is positive.
\<close>

theorem C7_null_for_absent_nontext_or_empty_selection:
  "getSelectedRange D c None = Inr ([], None)
   \<and> (anchorNode sel = None \<longrightarrow> getSelectedRange D c (Some sel) = Inr ([], None))
   \<and> (anchorNode sel = Some an \<and> nodeType an \<noteq> 3 \<longrightarrow>
        getSelectedRange D c (Some sel) = Inr ([SelectionNotText], None))
   \<and> (anchorNode sel = Some an \<and> focusNode sel = Some fn \<and> nodeType fn \<noteq> 3 \<longrightarrow>
        getSelectedRange D c (Some sel) = Inr ([SelectionNotText], None))
   \<and> (anchorNode sel = Some an \<and> focusNode sel = Some fn \<and> nodeType an = 3 \<and> nodeType fn = 3
        \<and> (if an = fn then focusOffset sel - anchorOffset sel else int (selection_text_length sel)) \<le> 0 \<longrightarrow>
        getSelectedRange D c (Some sel) = Inr ([], None))
   \<and> (getSelectedRange D c (Some sel) = Inr (lg, Some rg) \<longrightarrow>
        (\<exists>an fn. anchorNode sel = Some an \<and> focusNode sel = Some fn
           \<and> 0 < (if an = fn then focusOffset sel - anchorOffset sel else int (selection_text_length sel))))"
  by (auto simp: getSelectedRange_def Let_def split: option.splits if_splits)


theorem C7_witness:
  "getSelectedRange (\<lambda>m off. \<lparr>d_marker = m, d_offset = off\<rparr>)
     \<lparr>content_find = (\<lambda>n. int (node_id n)), content_at = (\<lambda>i. ''marker'')\<rparr>
     (Some \<lparr>anchorNode = None, focusNode = None, anchorOffset = 0, focusOffset = 0,
            selection_text_length = 0\<rparr>) = Inr ([], None)
   \<and> getSelectedRange (\<lambda>m off. \<lparr>d_marker = m, d_offset = off\<rparr>)
     \<lparr>content_find = (\<lambda>n. int (node_id n)), content_at = (\<lambda>i. ''marker'')\<rparr>
     (Some \<lparr>anchorNode = Some \<lparr>node_id = 0, nodeType = 1\<rparr>,
            focusNode = Some \<lparr>node_id = 1, nodeType = 3\<rparr>, anchorOffset = 0, focusOffset = 4,
            selection_text_length = 9\<rparr>) = Inr ([SelectionNotText], None)
   \<and> getSelectedRange (\<lambda>m off. \<lparr>d_marker = m, d_offset = off\<rparr>)
     \<lparr>content_find = (\<lambda>n. int (node_id n)), content_at = (\<lambda>i. ''marker'')\<rparr>
     (Some \<lparr>anchorNode = Some \<lparr>node_id = 0, nodeType = 3\<rparr>,
            focusNode = Some \<lparr>node_id = 1, nodeType = 1\<rparr>, anchorOffset = 0, focusOffset = 4,
            selection_text_length = 9\<rparr>) = Inr ([SelectionNotText], None)
   \<and> getSelectedRange (\<lambda>m off. \<lparr>d_marker = m, d_offset = off\<rparr>)
     \<lparr>content_find = (\<lambda>n. int (node_id n)), content_at = (\<lambda>i. ''marker'')\<rparr>
     (Some \<lparr>anchorNode = Some \<lparr>node_id = 0, nodeType = 3\<rparr>,
            focusNode = Some \<lparr>node_id = 0, nodeType = 3\<rparr>, anchorOffset = 4, focusOffset = 4,
            selection_text_length = 0\<rparr>) = Inr ([], None)
   \<and> (\<exists>an fn. anchorNode \<lparr>anchorNode = Some \<lparr>node_id = 0, nodeType = 3\<rparr>,
            focusNode = Some \<lparr>node_id = 1, nodeType = 3\<rparr>, anchorOffset = 7, focusOffset = 2,
            selection_text_length = 9\<rparr> = Some an
        \<and> focusNode \<lparr>anchorNode = Some \<lparr>node_id = 0, nodeType = 3\<rparr>,
            focusNode = Some \<lparr>node_id = 1, nodeType = 3\<rparr>, anchorOffset = 7, focusOffset = 2,
            selection_text_length = 9\<rparr> = Some fn
        \<and> 0 < (if an = fn then 2 - 7 else int 9))"
proof -
  let ?D = "\<lambda>m off. \<lparr>d_marker = m, d_offset = off\<rparr> :: string descriptor"
  let ?c = "\<lparr>content_find = (\<lambda>n. int (node_id n)), content_at = (\<lambda>i. ''marker'')\<rparr>"
  let ?text0 = "\<lparr>node_id = 0, nodeType = 3\<rparr>"
  let ?text1 = "\<lparr>node_id = 1, nodeType = 3\<rparr>"
  let ?elem0 = "\<lparr>node_id = 0, nodeType = 1\<rparr>"
  let ?elem1 = "\<lparr>node_id = 1, nodeType = 1\<rparr>"
  let ?absent = "\<lparr>anchorNode = None, focusNode = None, anchorOffset = 0, focusOffset = 0,
            selection_text_length = 0\<rparr>"
  let ?anchor_elem = "\<lparr>anchorNode = Some ?elem0, focusNode = Some ?text1, anchorOffset = 0,
            focusOffset = 4, selection_text_length = 9\<rparr>"
  let ?focus_elem = "\<lparr>anchorNode = Some ?text0, focusNode = Some ?elem1, anchorOffset = 0,
            focusOffset = 4, selection_text_length = 9\<rparr>"
  let ?collapsed = "\<lparr>anchorNode = Some ?text0, focusNode = Some ?text0, anchorOffset = 4,
            focusOffset = 4, selection_text_length = 0\<rparr>"
  let ?across = "\<lparr>anchorNode = Some ?text0, focusNode = Some ?text1, anchorOffset = 7,
            focusOffset = 2, selection_text_length = 9\<rparr>"
  let ?range = "\<lparr>range_start = ?D ''marker'' 7, range_end = ?D ''marker'' 1\<rparr>"
  have "getSelectedRange ?D ?c (Some ?absent) = Inr ([], None)"
    using C7_null_for_absent_nontext_or_empty_selection [of ?D ?c ?absent] by simp
  moreover have "getSelectedRange ?D ?c (Some ?anchor_elem) = Inr ([SelectionNotText], None)"
    using C7_null_for_absent_nontext_or_empty_selection [of ?D ?c ?anchor_elem ?elem0] by simp
  moreover have "getSelectedRange ?D ?c (Some ?focus_elem) = Inr ([SelectionNotText], None)"
    using C7_null_for_absent_nontext_or_empty_selection [of ?D ?c ?focus_elem ?text0 ?elem1] by simp
  moreover have "getSelectedRange ?D ?c (Some ?collapsed) = Inr ([], None)"
    using C7_null_for_absent_nontext_or_empty_selection [of ?D ?c ?collapsed ?text0 ?text0] by simp
  moreover have "getSelectedRange ?D ?c (Some ?across) = Inr ([], Some ?range)"
    by (simp add: getSelectedRange_def)
  then have "\<exists>an fn. anchorNode ?across = Some an \<and> focusNode ?across = Some fn
      \<and> 0 < (if an = fn then focusOffset ?across - anchorOffset ?across
               else int (selection_text_length ?across))"
    using C7_null_for_absent_nontext_or_empty_selection [of ?D ?c ?across _ _ "[]" ?range] by blast
  ultimately show ?thesis
    by simp
qed

section \<open>C8: draining the transaction queue\<close>

text \<open>
  C8. \<^verbatim>\<open>apply()\<close> leaves the queue empty, and for every action of the queue, with the
  actions \<open>pre\<close> enqueued before it and \<open>post\<close> after it: the actions of \<open>pre\<close> have run
  first, in their order; the action runs on the state they left; if it throws, the
  exception is logged; and the actions of \<open>post\<close> then run, in their order, on the state
  the action left, also when it threw.
\<close>

theorem C8_apply_drains_queue_in_order:
  "transaction (apply_transaction s) = []
   \<and> (transaction s = pre @ act # post \<longrightarrow>
        apply_transaction s =
          (transaction_forEach post
             (case run_action act (transaction_forEach pre s) of
                Inr t \<Rightarrow> t
              | Inl (x, t) \<Rightarrow> console_log (FailedToApply x) t))\<lparr>transaction := []\<rparr>)"
  by (simp add: apply_transaction_def console_log_def transaction_forEach_append try_action_def)

theorem C8_witness:
  "transaction (apply_transaction
      (add ''q'' (Some [Finder (hits_upto 1)]) True None (remove ''x'' (init \<lparr>maxHighlight = 5\<rparr> False)))) = []
   \<and> console (apply_transaction
      (add ''q'' (Some [Finder (hits_upto 1)]) True None (remove ''x'' (init \<lparr>maxHighlight = 5\<rparr> False))))
     = [FailedToApply QuerySetNonExistent]
   \<and> queries (apply_transaction
      (add ''q'' (Some [Finder (hits_upto 1)]) True None (remove ''x'' (init \<lparr>maxHighlight = 5\<rparr> False))))
     = [(''q'', 0)]"
proof -
  let ?s = "add ''q'' (Some [Finder (hits_upto 1)]) True None (remove ''x'' (init \<lparr>maxHighlight = 5\<rparr> False))"
  let ?post = "[Add ''q'' (Some [Finder (hits_upto 1)]) True None]"
  let ?r = "(transaction_forEach ?post
             (case run_action (Remove ''x'') (transaction_forEach [] ?s) of
                Inr t \<Rightarrow> t
              | Inl (x, t) \<Rightarrow> console_log (FailedToApply x) t))\<lparr>transaction := []\<rparr>"
  have t: "transaction ?s = [] @ Remove ''x'' # ?post"
    by (simp add: add_def remove_def enqueue_def init_def)
  have eq: "apply_transaction ?s = ?r"
    using C8_apply_drains_queue_in_order [of ?s "[]" "Remove ''x''" ?post] t by blast
  have "transaction ?r = []" "console ?r = [FailedToApply QuerySetNonExistent]" "queries ?r = [(''q'', 0)]"
    by code_simp+
  then show ?thesis
    unfolding eq by simp
qed

section \<open>C9: the cycling highlight class\<close>

text \<open>
  C9. Given \<^verbatim>\<open>maxHighlight >= 1\<close> and \<^verbatim>\<open>stats.highlight\<close> in \<^verbatim>\<open>[0, maxHighlight)\<close>, an add
  that returns leaves \<^verbatim>\<open>stats.highlight\<close> at \<^verbatim>\<open>(stats.highlight + 1) mod maxHighlight\<close>, and
  after \<^verbatim>\<open>apply()\<close>, whatever the queue held, \<^verbatim>\<open>stats.highlight\<close> is again in
  \<^verbatim>\<open>[0, maxHighlight)\<close>. The constructor sets it to 0.
\<close>

theorem C9_highlight_cycles:
  assumes "1 \<le> maxHighlight (options s)"
    and "0 \<le> stats_highlight (stats s)"
    and "stats_highlight (stats s) < maxHighlight (options s)"
  shows "(deferred_add' nm qs en r s = Inr s' \<longrightarrow>
            stats_highlight (stats s') = (stats_highlight (stats s) + 1) mod maxHighlight (options s))
         \<and> 0 \<le> stats_highlight (stats (apply_transaction s))
         \<and> stats_highlight (stats (apply_transaction s)) < maxHighlight (options (apply_transaction s))"
proof -
  have "highlight_in_range s"
    using assms by (simp add: highlight_in_range_def)
  then have "highlight_in_range (apply_transaction s)"
    by (rule apply_transaction_highlight)
  moreover have "stats_highlight (stats s') = (stats_highlight (stats s) + 1) mod maxHighlight (options s)"
    if ok: "deferred_add' nm qs en r s = Inr s'"
  proof -
    from ok obtain q where q: "qs = Some q"
      by (cases qs) (simp_all add: deferred_add'_def)
    have h: "stats_highlight (stats s') =
            (if stats_highlight (stats s) + 1 \<ge> maxHighlight (options s) then 0
             else stats_highlight (stats s) + 1)"
      using deferred_add_highlight [of nm q en r s] ok q by (simp add: outcome_state_def)
    show ?thesis
    proof (cases "stats_highlight (stats s) + 1 \<ge> maxHighlight (options s)")
      case True
      with assms have "stats_highlight (stats s) + 1 = maxHighlight (options s)"
        by simp
      with h True show ?thesis
        by simp
    next
      case False
      with h assms show ?thesis
        by (simp add: mod_pos_pos_trivial)
    qed
  qed
  ultimately show ?thesis
    by (simp add: highlight_in_range_def)
qed

theorem C9_witness:
  "maxHighlight (options (apply_transaction (add ''a'' (Some []) True None (init \<lparr>maxHighlight = 2\<rparr> False)))) = 2
   \<and> stats_highlight (stats (apply_transaction (add ''a'' (Some []) True None (init \<lparr>maxHighlight = 2\<rparr> False)))) = 1
   \<and> stats_highlight (stats (outcome_state (deferred_add' ''b'' (Some []) True None
         (apply_transaction (add ''a'' (Some []) True None (init \<lparr>maxHighlight = 2\<rparr> False)))))) = (1 + 1) mod 2
   \<and> stats_highlight (stats (apply_transaction
         (apply_transaction (add ''a'' (Some []) True None (init \<lparr>maxHighlight = 2\<rparr> False))))) \<in> {0, 1}"
proof -
  let ?s = "apply_transaction (add ''a'' (Some []) True None (init \<lparr>maxHighlight = 2\<rparr> False))"
  let ?r = "deferred_add' ''b'' (Some []) True None ?s"
  have m: "maxHighlight (options ?s) = 2" and h: "stats_highlight (stats ?s) = 1"
    by code_simp+
  have "\<not> isl ?r"
    by code_simp
  then have ok: "?r = Inr (outcome_state ?r)"
    by (cases ?r) simp_all
  have "(?r = Inr (outcome_state ?r) \<longrightarrow>
            stats_highlight (stats (outcome_state ?r)) = (stats_highlight (stats ?s) + 1) mod maxHighlight (options ?s))
         \<and> 0 \<le> stats_highlight (stats (apply_transaction ?s))
         \<and> stats_highlight (stats (apply_transaction ?s)) < maxHighlight (options (apply_transaction ?s))"
    by (rule C9_highlight_cycles) (simp_all add: m h)
  moreover have "maxHighlight (options (apply_transaction ?s)) = 2"
    by code_simp
  ultimately show ?thesis
    using ok m h by auto
qed

section \<open>C10: what \<open>empty\<close> tests\<close>

text \<open>
  C10. \<^verbatim>\<open>empty()\<close> returns true if and only if every registered query set has length 0: it
  tests the presence of highlights, not of query sets.
\<close>

theorem C10_empty_iff_no_highlights:
  "empty s \<longleftrightarrow> (\<forall>k a. map_of (queries s) k = Some a \<longrightarrow> qlength (heap s a) = 0)"
proof
  assume e: "empty s"
  show "\<forall>k a. map_of (queries s) k = Some a \<longrightarrow> qlength (heap s a) = 0"
  proof (intro allI impI)
    fix k a
    assume m: "map_of (queries s) k = Some a"
    then have "(k, a) \<in> set (queries s)"
      by (rule map_of_SomeD)
    then have "k \<in> set (map fst (queries s))"
      by force
    with e m show "qlength (heap s a) = 0"
      by (auto simp: empty_def list_ex_iff)
  qed
next
  assume "\<forall>k a. map_of (queries s) k = Some a \<longrightarrow> qlength (heap s a) = 0"
  then show "empty s"
    by (auto simp: empty_def list_ex_iff split: option.splits)
qed

text \<open>A registry holding one query set without any hit is reported as empty.\<close>

theorem C10_witness:
  "queries (apply_transaction (add ''q'' (Some []) True None (init \<lparr>maxHighlight = 5\<rparr> False))) = [(''q'', 0)]
   \<and> empty (apply_transaction (add ''q'' (Some []) True None (init \<lparr>maxHighlight = 5\<rparr> False)))"
proof -
  let ?s = "apply_transaction (add ''q'' (Some []) True None (init \<lparr>maxHighlight = 5\<rparr> False))"
  have q: "queries ?s = [(''q'', 0)]"
    by code_simp
  have l: "qlength (heap ?s 0) = 0"
    by code_simp
  have "\<forall>k a. map_of (queries ?s) k = Some a \<longrightarrow> qlength (heap ?s a) = 0"
    unfolding q using l by (simp split: if_splits)
  then have "empty ?s"
    using C10_empty_iff_no_highlights [of ?s] by blast
  with q show ?thesis by simp
qed

end
